theory Spec2Isabelle
  imports Complex_Main "HOL-Library.Sublist" "HOL-Library.Char_ord" "HOL-Library.List_Lexorder"
begin

section \<open>Strings\<close>

text \<open>
  Python's \<open>str.replace(old, new)\<close>: every non-overlapping occurrence of \<open>old\<close>, found
  scanning from the left, is replaced by \<open>new\<close>. With an empty \<open>old\<close> Python puts
  \<open>new\<close> before every character and at the end.
\<close>

fun replace :: "string \<Rightarrow> string \<Rightarrow> string \<Rightarrow> string" where
  "replace old new [] = (if old = [] then new else [])"
| "replace old new (c # cs) =
     (if old = [] then new @ c # replace old new cs
      else if prefix old (c # cs) then new @ replace old new (drop (length old) (c # cs))
      else c # replace old new cs)"

text \<open>
  \<open>name.replace(".pdf", "").replace("_", " ")\<close>, the expression of \<open>make_toc_pdf\<close>
  (the TOC row text) and of \<open>merge_with_index\<close> (the bookmark title).
\<close>

definition display_name :: "string \<Rightarrow> string" where
  "display_name name = replace ''_'' '' '' (replace ''.pdf'' '''' name)"

text \<open>
  The transformation as the specification words it, for comparison with the code: a
  trailing \<open>.pdf\<close> is removed, then every underscore becomes a space.
\<close>

definition strip_suffix :: "string \<Rightarrow> string \<Rightarrow> string" where
  "strip_suffix suf s = (if suffix suf s then take (length s - length suf) s else s)"

definition display_name_spec :: "string \<Rightarrow> string" where
  "display_name_spec name = map (\<lambda>c. if c = CHR ''_'' then CHR '' '' else c) (strip_suffix ''.pdf'' name)"

text \<open>\<open>occurs old s\<close>: \<open>old\<close> is a contiguous part of \<open>s\<close> (Python's \<open>old in s\<close>).\<close>

fun occurs :: "string \<Rightarrow> string \<Rightarrow> bool" where
  "occurs old [] = (old = [])"
| "occurs old (c # cs) = (prefix old (c # cs) \<or> occurs old cs)"


text \<open>Python's \<open>str(n)\<close> for a non-negative integer: its decimal digits.\<close>

fun str :: "nat \<Rightarrow> string" where
  "str n = (if n < 10 then [''0123456789'' ! n] else str (n div 10) @ [''0123456789'' ! (n mod 10)])"

declare str.simps [simp del]

section \<open>Paths\<close>

text \<open>
  \<open>os.path\<close> on a POSIX system. \<open>basename\<close> is what follows the last slash;
  \<open>dirname\<close> is what precedes it, without its trailing slashes unless it consists of
  slashes only; \<open>join\<close> restarts at a component that begins with a slash and puts a slash
  between components otherwise.
\<close>

definition basename :: "string \<Rightarrow> string" where
  "basename p = rev (takeWhile (\<lambda>c. c \<noteq> CHR ''/'') (rev p))"

definition dirname :: "string \<Rightarrow> string" where
  "dirname p =
     (let head = rev (dropWhile (\<lambda>c. c \<noteq> CHR ''/'') (rev p))
      in if head \<noteq> [] \<and> \<not> list_all (\<lambda>c. c = CHR ''/'') head
         then rev (dropWhile (\<lambda>c. c = CHR ''/'') (rev head))
         else head)"

fun join :: "string \<Rightarrow> string list \<Rightarrow> string" where
  "join path [] = path"
| "join path (b # bs) =
     join (if prefix ''/'' b then b
           else if path = [] \<or> suffix ''/'' path then path @ b
           else path @ ''/'' @ b) bs"

section \<open>The drawing canvas\<close>

text \<open>
  The canvas of the drawing library, as far as the program uses it. A canvas holds the
  pages already finished, the drawing operations of the page under way, and the graphics
  state (font, colours, line width, dash pattern). A drawing operation records the state it
  was drawn with. \<open>showPage\<close> finishes the page under way and resets the graphics state;
  \<open>save\<close> finishes the page under way if anything was drawn on it, and the document is
  then read back as its list of pages. Lengths are in points, as exact rationals: the
  source computes them in binary floating point, and the comparison that decides a page
  break of the TOC never has its two sides closer than 7 points to each other (lemma
  \<open>toc_rows_clear_of_threshold\<close> below), far beyond rounding. Setting a font or a
  colour changes the graphics state only; every page of this program carries a drawing
  operation by the time it is saved.
\<close>

datatype align = AlignLeft | AlignCentre | AlignRight

datatype draw =
    Text align rat rat "string \<times> rat" string string
  | Line rat rat rat rat string rat "nat list"
  | Rect rat rat rat rat bool bool string
  | Image string rat rat rat rat bool

datatype page = Drawn "rat \<times> rat" "draw list" | Source string

record canvas =
  pagesize :: "rat \<times> rat"
  pages :: "page list"
  code :: "draw list"
  font :: "string \<times> rat"
  fill_color :: string
  stroke_color :: string
  line_width :: rat
  dash :: "nat list"
  title :: string

definition inch :: rat where
  "inch = 72"

definition letter :: "rat \<times> rat" where
  "letter = (8.5 * inch, 11 * inch)"

definition Canvas :: "rat \<times> rat \<Rightarrow> canvas" where
  "Canvas ps =
     \<lparr>pagesize = ps, pages = [], code = [], font = (''Helvetica'', 12),
      fill_color = ''#000000'', stroke_color = ''#000000'', line_width = 1, dash = [],
      title = []\<rparr>"

definition setTitle :: "string \<Rightarrow> canvas \<Rightarrow> canvas" where
  "setTitle t c = c\<lparr>title := t\<rparr>"

definition setFont :: "string \<Rightarrow> rat \<Rightarrow> canvas \<Rightarrow> canvas" where
  "setFont name pt c = c\<lparr>font := (name, pt)\<rparr>"

definition setFillColor :: "string \<Rightarrow> canvas \<Rightarrow> canvas" where
  "setFillColor col c = c\<lparr>fill_color := col\<rparr>"

definition setStrokeColor :: "string \<Rightarrow> canvas \<Rightarrow> canvas" where
  "setStrokeColor col c = c\<lparr>stroke_color := col\<rparr>"

definition setLineWidth :: "rat \<Rightarrow> canvas \<Rightarrow> canvas" where
  "setLineWidth w c = c\<lparr>line_width := w\<rparr>"

definition setDash :: "nat list \<Rightarrow> canvas \<Rightarrow> canvas" where
  "setDash d c = c\<lparr>dash := d\<rparr>"

definition drawString :: "rat \<Rightarrow> rat \<Rightarrow> string \<Rightarrow> canvas \<Rightarrow> canvas" where
  "drawString x y s c = c\<lparr>code := code c @ [Text AlignLeft x y (font c) (fill_color c) s]\<rparr>"

definition drawCentredString :: "rat \<Rightarrow> rat \<Rightarrow> string \<Rightarrow> canvas \<Rightarrow> canvas" where
  "drawCentredString x y s c =
     c\<lparr>code := code c @ [Text AlignCentre x y (font c) (fill_color c) s]\<rparr>"

definition drawRightString :: "rat \<Rightarrow> rat \<Rightarrow> string \<Rightarrow> canvas \<Rightarrow> canvas" where
  "drawRightString x y s c = c\<lparr>code := code c @ [Text AlignRight x y (font c) (fill_color c) s]\<rparr>"

definition line :: "rat \<Rightarrow> rat \<Rightarrow> rat \<Rightarrow> rat \<Rightarrow> canvas \<Rightarrow> canvas" where
  "line x1 y1 x2 y2 c =
     c\<lparr>code := code c @ [Line x1 y1 x2 y2 (stroke_color c) (line_width c) (dash c)]\<rparr>"

definition rect :: "rat \<Rightarrow> rat \<Rightarrow> rat \<Rightarrow> rat \<Rightarrow> bool \<Rightarrow> bool \<Rightarrow> canvas \<Rightarrow> canvas" where
  "rect x y w h fill stroke c = c\<lparr>code := code c @ [Rect x y w h fill stroke (fill_color c)]\<rparr>"

definition drawImage :: "string \<Rightarrow> rat \<Rightarrow> rat \<Rightarrow> rat \<Rightarrow> rat \<Rightarrow> bool \<Rightarrow> canvas \<Rightarrow> canvas" where
  "drawImage path x y w h keep c = c\<lparr>code := code c @ [Image path x y w h keep]\<rparr>"

definition showPage :: "canvas \<Rightarrow> canvas" where
  "showPage c =
     c\<lparr>pages := pages c @ [Drawn (pagesize c) (code c)], code := [],
       font := (''Helvetica'', 12), fill_color := ''#000000'', stroke_color := ''#000000'',
       line_width := 1, dash := []\<rparr>"

definition save :: "canvas \<Rightarrow> page list" where
  "save c = pages (if code c \<noteq> [] then showPage c else c)"

section \<open>The environment\<close>

text \<open>
  What the program reads from its surroundings, one field per library call:
  \<open>script_file\<close> is the program's own path (\<open>__file__\<close>); \<open>isdir\<close>, \<open>glob\<close> and
  \<open>exists\<close> are those of \<open>os.path\<close> and \<open>glob\<close>; \<open>PdfReader\<close> opens a PDF and gives
  its pages or the message of the exception raised; \<open>pages_error\<close> is the exception, if
  any, that reading the page list of the opened file (\<open>r.pages\<close>) raises, as for an
  encrypted file or one without a page tree, and then the pages are never seen;
  \<open>Image_open\<close> gives the pixel size of an image or the message of the exception raised;
  \<open>image_draw_error\<close> is the exception, if any, that placing that image on a canvas
  raises; \<open>stringWidth\<close> is the width of a text in a font at a size; \<open>open_error\<close> is the
  exception, if any, of opening a path for writing. An exception that the program catches
  is given by its message; one that it does not catch (\<open>pages_error\<close>, \<open>open_error\<close>) by
  the last line of its traceback, the name of its class and its message.
\<close>

record world =
  script_file :: string
  isdir :: "string \<Rightarrow> bool"
  glob :: "string \<Rightarrow> string list"
  PdfReader :: "string \<Rightarrow> string + page list"
  pages_error :: "string \<Rightarrow> string option"
  exists :: "string \<Rightarrow> bool"
  Image_open :: "string \<Rightarrow> string + nat \<times> nat"
  image_draw_error :: "string \<Rightarrow> string option"
  stringWidth :: "string \<Rightarrow> string \<Rightarrow> rat \<Rightarrow> rat"
  open_error :: "string \<Rightarrow> string option"

datatype error = RuntimeError string | Raised string

definition quoted :: "string \<Rightarrow> string" where
  "quoted s = CHR 0x27 # s @ [CHR 0x27]"

section \<open>\<open>make_cover_pdf\<close>\<close>

definition page_w :: rat where
  "page_w = fst letter"

definition page_h :: rat where
  "page_h = snd letter"

text \<open>The two lines of the fallback title page, which the source writes out twice.\<close>

definition fallback_title :: "canvas \<Rightarrow> canvas" where
  "fallback_title c =
     (let c = setFont ''Helvetica-Bold'' 36 c;
          c = drawCentredString (page_w / 2) (page_h / 2) ''Document Collection'' c
      in c)"

text \<open>
  The body of the \<open>try\<close>: \<open>Inl\<close> is the message of the exception that leaves it. The
  division of a float by the integer zero raises \<open>ZeroDivisionError\<close>.
\<close>

definition draw_cover_image :: "world \<Rightarrow> string \<Rightarrow> canvas \<Rightarrow> string + canvas" where
  "draw_cover_image w cover_image_path c =
     (case Image_open w cover_image_path of
        Inl e \<Rightarrow> Inl e
      | Inr (img_w, img_h) \<Rightarrow>
          if img_w = 0 \<or> img_h = 0 then Inl ''float division by zero''
          else
            let scale = min (page_w / of_nat img_w) (page_h / of_nat img_h);
                new_w = of_nat img_w * scale;
                new_h = of_nat img_h * scale;
                x = (page_w - new_w) / 2;
                y = (page_h - new_h) / 2
            in (case image_draw_error w cover_image_path of
                  Some e \<Rightarrow> Inl e
                | None \<Rightarrow> Inr (drawImage cover_image_path x y new_w new_h True c)))"

text \<open>The result: the lines printed and the pages of the document read back.\<close>

definition make_cover_pdf :: "world \<Rightarrow> string \<Rightarrow> string list \<times> page list" where
  "make_cover_pdf w cover_image_path =
     (let c = Canvas letter
      in if exists w cover_image_path then
           (case draw_cover_image w cover_image_path c of
              Inr c \<Rightarrow> ([], save c)
            | Inl e \<Rightarrow> ([''Warning: Could not add cover image: '' @ e], save (fallback_title c)))
         else ([], save (fallback_title c)))"

section \<open>\<open>make_toc_pdf\<close>\<close>

definition margin :: rat where
  "margin = 0.9 * inch"

definition right_margin :: rat where
  "right_margin = page_w - margin"

definition primary_color :: string where
  "primary_color = ''#2C3E50''"

definition accent_color :: string where
  "accent_color = ''#3498DB''"

definition text_color :: string where
  "text_color = ''#34495E''"

text \<open>Lines 75 to 104: the canvas and the height \<open>y\<close> after the header of the first page.\<close>

definition toc_header :: "canvas \<times> rat" where
  "toc_header =
     (let c = Canvas letter;
          y = page_h - margin;
          c = setTitle ''Table of Contents'' c;
          c = setFillColor primary_color c;
          c = setFont ''Helvetica-Bold'' 28 c;
          c = drawString margin y ''Table of Contents'' c;
          y = y - 0.3 * inch;
          c = setStrokeColor accent_color c;
          c = setLineWidth 2 c;
          c = line margin y (margin + 200) y c;
          y = y - 0.5 * inch;
          c = setFillColor text_color c;
          c = setStrokeColor text_color c;
          c = setLineWidth 0.5 c
      in (c, y))"

definition draw_page_number :: "nat \<Rightarrow> canvas \<Rightarrow> canvas" where
  "draw_page_number page_num c =
     (let c = setFont ''Helvetica'' 9 c;
          c = setFillColor ''#95A5A6'' c;
          c = drawCentredString (page_w / 2) (0.5 * inch) (''- '' @ str page_num @ '' -'') c
      in c)"

text \<open>Lines 110 to 134: the body of \<open>if y < margin + 0.5 * inch\<close>.\<close>

fun toc_page_break :: "canvas \<times> rat \<times> nat \<Rightarrow> canvas \<times> rat \<times> nat" where
  "toc_page_break (c, y, page_num) =
     (let c = draw_page_number page_num c;
          c = showPage c;
          page_num = page_num + 1;
          y = page_h - margin;
          c = setFillColor primary_color c;
          c = setFont ''Helvetica-Bold'' 20 c;
          c = drawString margin y ''Table of Contents (continued)'' c;
          y = y - 0.15 * inch;
          c = setStrokeColor accent_color c;
          c = setLineWidth 1 c;
          c = line margin y (margin + 150) y c;
          y = y - 0.4 * inch;
          c = setFillColor text_color c;
          c = setStrokeColor text_color c;
          c = setLineWidth 0.5 c
      in (c, y, page_num))"

text \<open>Lines 108 to 170: one turn of the loop, for the entry \<open>(name, start_page)\<close> at \<open>idx\<close>.\<close>

fun toc_row ::
  "(string \<Rightarrow> string \<Rightarrow> rat \<Rightarrow> rat) \<Rightarrow> nat \<Rightarrow> string \<times> nat \<Rightarrow> canvas \<times> rat \<times> nat
    \<Rightarrow> canvas \<times> rat \<times> nat" where
  "toc_row sw idx (name, start_page) (c, y, page_num) =
     (let (c, y, page_num) =
            (if y < margin + 0.5 * inch then toc_page_break (c, y, page_num)
             else (c, y, page_num));
          c = (if idx mod 2 = 0
               then let c = setFillColor ''#ECF0F1'' c;
                        c = rect (margin - 10) (y - 5) (right_margin - margin + 20)
                              (0.28 * inch) True False c
                    in setFillColor text_color c
               else c);
          shown = display_name name;
          c = setFont ''Helvetica'' 11 c;
          c = drawString margin y shown c;
          dot_start_x = margin + sw shown ''Helvetica'' 11 + 10;
          dot_end_x = right_margin - 40;
          c = (if dot_start_x < dot_end_x
               then let c = setDash [2, 4] c;
                        c = line dot_start_x (y + 3) dot_end_x (y + 3) c
                    in setDash [] c
               else c);
          c = setFont ''Helvetica-Bold'' 11 c;
          page_str = str start_page;
          c = drawRightString right_margin y page_str c;
          y = y - 0.32 * inch
      in (c, y, page_num))"

text \<open>The loop \<open>for idx, (name, start_page) in enumerate(entries)\<close>, from index \<open>idx\<close> on.\<close>

fun toc_rows ::
  "(string \<Rightarrow> string \<Rightarrow> rat \<Rightarrow> rat) \<Rightarrow> nat \<Rightarrow> (string \<times> nat) list \<Rightarrow> canvas \<times> rat \<times> nat
    \<Rightarrow> canvas \<times> rat \<times> nat" where
  "toc_rows sw idx [] st = st"
| "toc_rows sw idx (e # es) st = toc_rows sw (idx + 1) es (toc_row sw idx e st)"

definition make_toc_pdf ::
  "(string \<Rightarrow> string \<Rightarrow> rat \<Rightarrow> rat) \<Rightarrow> (string \<times> nat) list \<Rightarrow> page list" where
  "make_toc_pdf sw entries =
     (let (c, y) = toc_header;
          page_num = 1;
          (c, y, page_num) = toc_rows sw 0 entries (c, y, page_num);
          c = draw_page_number page_num c
      in save c)"

text \<open>
  The continuation header: a left-aligned text in Helvetica-Bold at 20 points reading
  \<open>Table of Contents (continued)\<close>. The rows are drawn at 11 points, so a file of that
  name is not taken for the header.
\<close>

fun is_continued_header :: "draw \<Rightarrow> bool" where
  "is_continued_header (Text a x y f col s) =
     (a = AlignLeft \<and> f = (''Helvetica-Bold'', 20) \<and> s = ''Table of Contents (continued)'')"
| "is_continued_header _ = False"

fun has_continued_header :: "page \<Rightarrow> bool" where
  "has_continued_header (Drawn ps ops) = list_ex is_continued_header ops"
| "has_continued_header (Source d) = False"

section \<open>The output container\<close>

text \<open>
  The PDF writer: the pages added so far and the outline, each item a title and the
  0-based index of the page it points at. \<open>add_outline_item\<close> stores the index as it is
  given; the page need not exist yet.
\<close>

record writer =
  wpages :: "page list"
  outline :: "(string \<times> nat) list"

definition PdfWriter :: writer where
  "PdfWriter = \<lparr>wpages = [], outline = []\<rparr>"

definition add_page :: "page \<Rightarrow> writer \<Rightarrow> writer" where
  "add_page p wr = wr\<lparr>wpages := wpages wr @ [p]\<rparr>"

definition add_outline_item :: "string \<Rightarrow> nat \<Rightarrow> writer \<Rightarrow> writer" where
  "add_outline_item t page_number wr = wr\<lparr>outline := outline wr @ [(t, page_number)]\<rparr>"

section \<open>\<open>merge_with_index\<close>\<close>

text \<open>
  Lines 192 to 203, the loop over \<open>pdf_paths\<close>. Its state: the lines printed, \<open>readers\<close>,
  \<open>entries\<close> and \<open>page_cursor\<close>. Only \<open>PdfReader(p)\<close> is inside the \<open>try\<close>: an exception
  of \<open>len(r.pages)\<close> on line 203 is not caught, and leaves the loop and the function with
  what was printed so far.
\<close>

type_synonym catalog_state =
  "(string \<times> page list) list \<times> (string \<times> nat) list \<times> nat"

fun catalog ::
  "world \<Rightarrow> string list \<Rightarrow> string list \<times> catalog_state
    \<Rightarrow> string list \<times> (error + catalog_state)" where
  "catalog w [] (out, st) = (out, Inr st)"
| "catalog w (p # ps) (out, readers, entries, page_cursor) =
     (case PdfReader w p of
        Inl e \<Rightarrow>
          catalog w ps
            (out @ [''WARNING: Skipping '' @ quoted p @ '' ('' @ e @ '')''],
             readers, entries, page_cursor)
      | Inr r \<Rightarrow>
          (case pages_error w p of
             Some e \<Rightarrow> (out, Inl (Raised e))
           | None \<Rightarrow>
               catalog w ps
                 (out, readers @ [(basename p, r)], entries @ [(basename p, page_cursor + 1)],
                  page_cursor + length r)))"

text \<open>Lines 226 to 234: one turn of the loop over \<open>readers\<close>.\<close>

fun append_document :: "string \<times> page list \<Rightarrow> writer \<times> nat \<Rightarrow> writer \<times> nat" where
  "append_document (name, reader) (wr, running_index) =
     (let bookmark_name = display_name name;
          wr = add_outline_item bookmark_name running_index wr;
          wr = fold add_page reader wr;
          running_index = running_index + length reader
      in (wr, running_index))"

text \<open>Line 189: the path of the cover image.\<close>

definition cover_path :: "world \<Rightarrow> string" where
  "cover_path w = join (dirname (script_file w)) [''static'', ''cover.png'']"

text \<open>
  Lines 186 to 234: everything before the output file is opened. The result is the lines
  printed and either the exception raised or the container built.
\<close>

definition assemble :: "world \<Rightarrow> string list \<Rightarrow> string list \<times> (error + writer)" where
  "assemble w pdf_paths =
     (let wr = PdfWriter;
          cover_image = cover_path w
      in case catalog w pdf_paths ([], [], [], 0) of
           (out, Inl e) \<Rightarrow> (out, Inl e)
         | (out, Inr (readers, entries, page_cursor)) \<Rightarrow>
             if readers = [] then (out, Inl (RuntimeError ''No readable PDFs to merge.''))
             else
               let (warned, cover_pdf) = make_cover_pdf w cover_image;
                   cover_pages = length cover_pdf;
                   wr = fold add_page (map (\<lambda>i. cover_pdf ! i) [0..<cover_pages]) wr;
                   toc_pdf = make_toc_pdf (stringWidth w) entries;
                   toc_pages = length toc_pdf;
                   wr = fold add_page (map (\<lambda>i. toc_pdf ! i) [0..<toc_pages]) wr;
                   wr = add_outline_item ''Cover'' 0 wr;
                   wr = add_outline_item ''Table of Contents'' cover_pages wr;
                   running_index = cover_pages + toc_pages;
                   (wr, running_index) = fold append_document readers (wr, running_index)
               in (out @ warned, Inr wr))"

text \<open>
  The whole function, on a store of written files: the lines printed, the exception that
  leaves the function if any, and the store afterwards. Once the output file is open the
  write is taken to succeed.
\<close>

definition merge_with_index ::
  "world \<Rightarrow> (string \<rightharpoonup> writer) \<Rightarrow> string \<Rightarrow> string list
    \<Rightarrow> string list \<times> error option \<times> (string \<rightharpoonup> writer)" where
  "merge_with_index w store output_path pdf_paths =
     (case assemble w pdf_paths of
        (out, Inl e) \<Rightarrow> (out, Some e, store)
      | (out, Inr wr) \<Rightarrow>
          (case open_error w output_path of
             Some e \<Rightarrow> (out, Some (Raised e), store)
           | None \<Rightarrow> (out, None, store(output_path \<mapsto> wr))))"

section \<open>\<open>main\<close>\<close>

text \<open>
  A run of the process: what it printed, the last line of the traceback on the error
  stream when an exception was not caught, its exit status, and the store of written files.
\<close>

record outcome =
  stdout :: "string list"
  stderr :: "string list"
  exit_code :: nat
  files :: "string \<rightharpoonup> writer"

fun traceback :: "error \<Rightarrow> string" where
  "traceback (RuntimeError m) = ''RuntimeError: '' @ m"
| "traceback (Raised l) = l"

definition main :: "world \<Rightarrow> (string \<rightharpoonup> writer) \<Rightarrow> string list \<Rightarrow> outcome" where
  "main w store argv =
     (if length argv \<noteq> 3 then
        \<lparr>stdout = [''Usage: python main.py OUTPUT.pdf INPUT_DIR''], stderr = [],
         exit_code = 1, files = store\<rparr>
      else
        let out_path = argv ! 1;
            in_dir = argv ! 2
        in if \<not> isdir w in_dir then
             \<lparr>stdout = [''Error: '' @ quoted in_dir @ '' is not a directory''], stderr = [],
              exit_code = 1, files = store\<rparr>
           else
             let pdfs = sort (glob w (join in_dir [''*.pdf'']))
             in if pdfs = [] then
                  \<lparr>stdout = [''No PDFs found in '' @ in_dir], stderr = [],
                   exit_code = 1, files = store\<rparr>
                else
                  let started =
                        [''Merging '' @ str (length pdfs) @ '' PDFs from '' @ quoted in_dir
                           @ '' '' @ [CHR 0xE2, CHR 0x86, CHR 0x92] @ '' '' @ quoted out_path,
                         ''Adding cover page and beautiful Table of Contents...'']
                  in (case merge_with_index w store out_path pdfs of
                        (out, Some e, store') \<Rightarrow>
                          \<lparr>stdout = started @ out, stderr = [traceback e],
                           exit_code = 1, files = store'\<rparr>
                      | (out, None, store') \<Rightarrow>
                          \<lparr>stdout = started @ out @ [''Done. Your beautiful PDF is ready!''],
                           stderr = [], exit_code = 0, files = store'\<rparr>))"

section \<open>Notions used to state the properties\<close>

text \<open>
  A path is readable when \<open>PdfReader\<close> opens it and its page list can be read; it is
  unpaged when \<open>PdfReader\<close> opens it and reading its page list raises. \<open>skip_warnings\<close>
  are the lines printed for the paths that do not open. \<open>cataloged\<close> and \<open>toc_entries\<close>
  are the \<open>readers\<close> and the \<open>entries\<close> the loop of lines 192 to 203 ends with, none
  when an exception left the loop. \<open>page_counts\<close> are the numbers of
  pages of the cataloged documents, \<open>opened\<close> are the readable paths with their names and
  pages, and \<open>offsets k ns\<close> are the running sums of \<open>ns\<close>
  from \<open>k\<close>: \<open>k\<close>, \<open>k + n\<^sub>0\<close>, \<open>k + n\<^sub>0 + n\<^sub>1\<close>, one per element of \<open>ns\<close>.
\<close>

definition readable :: "world \<Rightarrow> string \<Rightarrow> bool" where
  "readable w p = (\<not> isl (PdfReader w p) \<and> pages_error w p = None)"

definition unpaged :: "world \<Rightarrow> string \<Rightarrow> bool" where
  "unpaged w p = (\<not> isl (PdfReader w p) \<and> pages_error w p \<noteq> None)"

definition skip_warnings :: "world \<Rightarrow> string list \<Rightarrow> string list" where
  "skip_warnings w ps =
     concat (map (\<lambda>p. case PdfReader w p of
                          Inl e \<Rightarrow> [''WARNING: Skipping '' @ quoted p @ '' ('' @ e @ '')'']
                        | Inr r \<Rightarrow> []) ps)"

definition cataloged :: "world \<Rightarrow> string list \<Rightarrow> (string \<times> page list) list" where
  "cataloged w ps =
     (case snd (catalog w ps ([], [], [], 0)) of
        Inl e \<Rightarrow> []
      | Inr (readers, entries, page_cursor) \<Rightarrow> readers)"

definition toc_entries :: "world \<Rightarrow> string list \<Rightarrow> (string \<times> nat) list" where
  "toc_entries w ps =
     (case snd (catalog w ps ([], [], [], 0)) of
        Inl e \<Rightarrow> []
      | Inr (readers, entries, page_cursor) \<Rightarrow> entries)"

definition page_counts :: "(string \<times> page list) list \<Rightarrow> nat list" where
  "page_counts rs = map (\<lambda>r. length (snd r)) rs"

fun offsets :: "nat \<Rightarrow> nat list \<Rightarrow> nat list" where
  "offsets k [] = []"
| "offsets k (n # ns) = k # offsets (k + n) ns"

text \<open>
  Three small environments for concrete runs. In \<open>demo_world\<close> the directory \<open>in\<close> holds
  \<open>b.pdf\<close> (two pages), \<open>a.pdf\<close> (one page), \<open>c.pdf\<close> (five pages) and \<open>bad.pdf\<close>,
  which does not open; there is no cover image; a text is half as wide as its length times
  the font size. \<open>blank_world\<close> differs in \<open>a.pdf\<close> only, which opens and has no page.
  \<open>locked_world\<close> differs in \<open>c.pdf\<close> only, which opens and is encrypted: reading its
  page list raises.
\<close>

definition demo_world :: world where
  "demo_world =
     \<lparr>script_file = ''/app/main.py'',
      isdir = (\<lambda>d. d = ''in''),
      glob = (\<lambda>pat. if pat = ''in/*.pdf''
                     then [''in/b.pdf'', ''in/a.pdf'', ''in/c.pdf'', ''in/bad.pdf''] else []),
      PdfReader = (\<lambda>p. if p = ''in/a.pdf'' then Inr [Source ''a1'']
                       else if p = ''in/b.pdf'' then Inr [Source ''b1'', Source ''b2'']
                       else if p = ''in/c.pdf''
                         then Inr [Source ''c1'', Source ''c2'', Source ''c3'', Source ''c4'',
                                   Source ''c5'']
                       else Inl ''EOF marker not found''),
      pages_error = (\<lambda>p. None),
      exists = (\<lambda>p. False),
      Image_open = (\<lambda>p. Inl ''cannot identify image file''),
      image_draw_error = (\<lambda>p. None),
      stringWidth = (\<lambda>s f pt. of_nat (length s) * pt / 2),
      open_error = (\<lambda>p. None)\<rparr>"

definition blank_world :: world where
  "blank_world =
     demo_world\<lparr>PdfReader := \<lambda>p. if p = ''in/a.pdf'' then Inr [] else PdfReader demo_world p\<rparr>"

definition locked_world :: world where
  "locked_world =
     demo_world\<lparr>pages_error := \<lambda>p. if p = ''in/c.pdf''
        then Some ''PyPDF2.errors.FileNotDecryptedError: File has not been decrypted''
        else None\<rparr>"

definition opened :: "world \<Rightarrow> string list \<Rightarrow> (string \<times> page list) list" where
  "opened w ps = map (\<lambda>p. (basename p, projr (PdfReader w p))) (filter (readable w) ps)"

section \<open>Notions used to state the layout of the TOC\<close>

text \<open>
  \<open>header_layout ps\<close>: the first page of \<open>ps\<close> has no continuation header and every
  later page has one. \<open>compared_heights\<close> lists the values of \<open>y\<close> that the loop of
  \<open>make_toc_pdf\<close> compares with the threshold, and \<open>on_grid\<close> describes them: a row of the
  first page or of a later page, a whole number of row heights below the first row.
\<close>

definition header_layout :: "page list \<Rightarrow> bool" where
  "header_layout ps =
     (case ps of [] \<Rightarrow> True | p # qs \<Rightarrow> \<not> has_continued_header p \<and> list_all has_continued_header qs)"

fun compared_heights ::
  "(string \<Rightarrow> string \<Rightarrow> rat \<Rightarrow> rat) \<Rightarrow> nat \<Rightarrow> (string \<times> nat) list \<Rightarrow> canvas \<times> rat \<times> nat \<Rightarrow> rat list" where
  "compared_heights sw idx [] st = []"
| "compared_heights sw idx (e # es) st =
     fst (snd st) # compared_heights sw (idx + 1) es (toc_row sw idx e st)"

definition on_grid :: "rat \<Rightarrow> bool" where
  "on_grid y \<longleftrightarrow>
     (\<exists>k. k \<le> 25 \<and> y = 3348 / 5 - rat_of_nat k * (576 / 25))
     \<or> (\<exists>k. 1 \<le> k \<and> k \<le> 26 \<and> y = 3438 / 5 - rat_of_nat k * (576 / 25))"

text \<open>The fallback title page of \<open>make_cover_pdf\<close>.\<close>

definition fallback_page :: page where
  "fallback_page =
     Drawn letter
       [Text AlignCentre (page_w / 2) (page_h / 2) (''Helvetica-Bold'', 36) ''#000000''
          ''Document Collection'']"

section \<open>Facts about \<open>replace\<close>\<close>

lemma replace_absent: "old \<noteq> [] \<Longrightarrow> \<not> occurs old s \<Longrightarrow> replace old new s = s"
  by (induction s) auto

lemma length_remove_le: "length (replace old [] s) \<le> length s"
  by (induction old "[]::string" s rule: replace.induct) auto

lemma length_remove_less:
  "old \<noteq> [] \<Longrightarrow> occurs old s \<Longrightarrow> length (replace old [] s) < length s"
proof (induction s)
  case Nil
  then show ?case by simp
next
  case (Cons c cs)
  show ?case
  proof (cases "prefix old (c # cs)")
    case True
    have "length (replace old [] (drop (length old) (c # cs)))
            \<le> length (drop (length old) (c # cs))"
      by (rule length_remove_le)
    also have "\<dots> < length (c # cs)"
      using Cons.prems(1) by (cases old) auto
    finally show ?thesis
      using True Cons.prems(1) by simp
  next
    case False
    then show ?thesis
      using Cons by auto
  qed
qed

lemma replace_char: "replace [a] [b] s = map (\<lambda>x. if x = a then b else x) s"
  by (induction s) auto

lemma replace_char_twice: "a \<noteq> b \<Longrightarrow> replace [a] [b] (replace [a] [b] s) = replace [a] [b] s"
  by (simp add: replace_char)

section \<open>The display name\<close>

text \<open>
  C4. The claim: the display name is the file name with a trailing \<open>.pdf\<close> removed and
  underscores turned into spaces, and a \<open>.pdf\<close> that is not the trailing suffix stays.
  The code calls \<open>replace\<close>, which removes every occurrence: for the file
  \<open>a.pdf_b.pdf\<close> it yields \<open>a b\<close>, where the transformation of the specification
  yields \<open>a.pdf b\<close>.
\<close>

theorem display_name_removes_inner_pdf:
  "display_name ''a.pdf_b.pdf'' = ''a b'' \<and> display_name_spec ''a.pdf_b.pdf'' = ''a.pdf b''"
  by (simp add: display_name_def display_name_spec_def strip_suffix_def suffix_def)

lemma display_name_fixed:
  assumes "\<not> occurs ''.pdf'' (display_name s)"
  shows "display_name (display_name s) = display_name s"
proof -
  from assms have "replace ''.pdf'' [] (display_name s) = display_name s"
    by (intro replace_absent) simp_all
  then have "display_name (display_name s) = replace ''_'' '' '' (display_name s)"
    by (simp add: display_name_def [of "display_name s"])
  also have "\<dots> = display_name s"
    unfolding display_name_def [of s] by (rule replace_char_twice) simp
  finally show ?thesis .
qed

lemma occurs_Nil: "occurs [] t"
  by (cases t) simp_all

lemma occurs_append: "occurs old s \<Longrightarrow> occurs old (s @ t)"
proof (induction s)
  case Nil
  then show ?case by (simp add: occurs_Nil)
next
  case (Cons c cs)
  from Cons.prems consider "prefix old (c # cs)" | "occurs old cs"
    by auto
  then show ?case
  proof cases
    case 1
    then have "prefix old ((c # cs) @ t)"
      by (rule prefix_prefix)
    then show ?thesis by simp
  next
    case 2
    with Cons.IH show ?thesis by simp
  qed
qed

lemma occurs_spaced:
  "occurs ''.pdf'' (map (\<lambda>c. if c = CHR ''_'' then CHR '' '' else c) s) \<Longrightarrow> occurs ''.pdf'' s"
proof (induction s)
  case Nil
  then show ?case by simp
next
  case (Cons c cs)
  have "prefix ''.pdf'' (c # cs)"
    if "prefix ''.pdf'' (map (\<lambda>c. if c = CHR ''_'' then CHR '' '' else c) (c # cs))"
    using that
    by (auto simp: prefix_def map_eq_Cons_conv split: if_splits)
  with Cons show ?case by auto
qed

lemma replace_skip:
  "old \<noteq> [] \<Longrightarrow> \<not> prefix old (c # s) \<Longrightarrow> replace old new (c # s) = c # replace old new s"
  by simp

lemma remove_extension:
  "\<not> occurs ''.pdf'' (t @ ''.pd'') \<Longrightarrow> replace ''.pdf'' [] (t @ ''.pdf'') = t"
proof (induction t)
  case Nil
  then show ?case by simp
next
  case (Cons c cs)
  have np: "\<not> prefix ''.pdf'' ((c # cs) @ ''.pd'')" and rest: "\<not> occurs ''.pdf'' (cs @ ''.pd'')"
    using Cons.prems by simp_all
  have "\<not> prefix ''.pdf'' ((c # cs) @ ''.pdf'')"
  proof
    have split: "(c # cs) @ ''.pdf'' = ((c # cs) @ ''.pd'') @ [CHR ''f'']"
      by simp
    assume "prefix ''.pdf'' ((c # cs) @ ''.pdf'')"
    then have "prefix ''.pdf'' (((c # cs) @ ''.pd'') @ [CHR ''f''])"
      by (simp only: split)
    then consider "''.pdf'' = ((c # cs) @ ''.pd'') @ [CHR ''f'']"
      | "prefix ''.pdf'' ((c # cs) @ ''.pd'')"
      by (auto simp only: prefix_snoc)
    then show False
    proof cases
      case 1
      then have "length ''.pdf'' = length (((c # cs) @ ''.pd'') @ [CHR ''f''])"
        by (rule arg_cong)
      then show False by simp
    next
      case 2
      with np show False by blast
    qed
  qed
  then have "\<not> prefix ''.pdf'' (c # (cs @ ''.pdf''))"
    by simp
  then have "replace ''.pdf'' [] (c # (cs @ ''.pdf'')) = c # replace ''.pdf'' [] (cs @ ''.pdf'')"
    by (intro replace_skip) simp_all
  then show ?case
    by (simp only: append_Cons Cons.IH [OF rest])
qed

lemma extension_only:
  assumes "\<not> occurs ''.pdf'' (t @ ''.pd'')"
  shows "display_name (t @ ''.pdf'') = display_name_spec (t @ ''.pdf'')
     \<and> display_name (display_name (t @ ''.pdf'')) = display_name (t @ ''.pdf'')"
proof -
  have code: "display_name (t @ ''.pdf'') = map (\<lambda>c. if c = CHR ''_'' then CHR '' '' else c) t"
    by (simp add: display_name_def remove_extension [OF assms] replace_char)
  have spec: "display_name_spec (t @ ''.pdf'') = map (\<lambda>c. if c = CHR ''_'' then CHR '' '' else c) t"
    by (simp add: display_name_spec_def strip_suffix_def suffix_def)
  have "\<not> occurs ''.pdf'' t"
    using assms occurs_append [of "''.pdf''" t "''.pd''"] by blast
  then have "\<not> occurs ''.pdf'' (display_name (t @ ''.pdf''))"
    unfolding code using occurs_spaced [of t] by blast
  from display_name_fixed [OF this] code spec show ?thesis
    by simp
qed

text \<open>
  C5. The claim: applying the display-name transformation twice gives the same as applying
  it once. In the code it fails where the removal of an inner \<open>.pdf\<close> brings the two halves
  of another one together: \<open>x.p.pdfdf.pdf\<close> becomes \<open>x.pdf\<close>, and that becomes \<open>x\<close>. The
  transformation of the specification gives \<open>x.p.pdfdf\<close>, and gives it again. It is the
  removal of every occurrence that C4 records: on a name whose only \<open>.pdf\<close> is its
  extension the code agrees with the specification and a second application changes
  nothing (lemma \<open>extension_only\<close>).
\<close>

theorem display_name_twice_inner_pdf:
  "display_name ''x.p.pdfdf.pdf'' = ''x.pdf''
   \<and> display_name (display_name ''x.p.pdfdf.pdf'') = ''x''
   \<and> display_name_spec ''x.p.pdfdf.pdf'' = ''x.p.pdfdf''
   \<and> display_name_spec (display_name_spec ''x.p.pdfdf.pdf'') = ''x.p.pdfdf''"
  by (simp add: display_name_def display_name_spec_def strip_suffix_def suffix_def)

section \<open>The pages of the TOC\<close>

lemmas canvas_defs = setTitle_def setFont_def setFillColor_def setStrokeColor_def
  setLineWidth_def setDash_def drawString_def drawCentredString_def drawRightString_def
  line_def rect_def drawImage_def showPage_def draw_page_number_def

lemma toc_row_y:
  "fst (snd (toc_row sw idx e (c, y, n))) =
     (if y < margin + 0.5 * inch then page_h - margin - 0.15 * inch - 0.4 * inch else y) - 0.32 * inch"
  by (cases e) (simp add: Let_def)

lemma toc_row_pages:
  "pages (fst (toc_row sw idx e (c, y, n))) =
     (if y < margin + 0.5 * inch
      then pages c @ [Drawn (pagesize c) (code (draw_page_number n c))]
      else pages c)"
  by (cases e) (simp add: Let_def canvas_defs)

lemma toc_row_pagesize:
  "pagesize (fst (toc_row sw idx e (c, y, n))) = pagesize c"
  by (cases e) (simp add: Let_def canvas_defs)

lemma toc_row_code_header:
  "list_ex is_continued_header (code (fst (toc_row sw idx e (c, y, n)))) \<longleftrightarrow>
     y < margin + 0.5 * inch \<or> list_ex is_continued_header (code c)"
  by (cases e) (simp add: Let_def canvas_defs)

lemma page_number_code_header:
  "list_ex is_continued_header (code (draw_page_number n c)) \<longleftrightarrow> list_ex is_continued_header (code c)"
  by (simp add: Let_def canvas_defs)


declare toc_row.simps [simp del]

lemma toc_header_y: "snd toc_header = 3348 / 5"
  by (simp add: toc_header_def Let_def page_h_def letter_def margin_def inch_def)

lemma toc_header_canvas:
  "pages (fst toc_header) = [] \<and> pagesize (fst toc_header) = letter
   \<and> \<not> list_ex is_continued_header (code (fst toc_header))"
  by (simp add: toc_header_def Let_def canvas_defs Canvas_def)

lemma first_page_no_break:
  assumes "k \<le> 24"
  shows "\<not> (3348 / 5 - rat_of_nat k * (0.32 * inch) < margin + 0.5 * inch)"
proof -
  have "rat_of_nat k \<le> 24" using assms by simp
  then show ?thesis by (simp add: margin_def inch_def)
qed

lemma toc_rows_first_page:
  "pages c = [] \<Longrightarrow> y = 3348 / 5 - rat_of_nat k * (0.32 * inch) \<Longrightarrow> k + length es \<le> 25 \<Longrightarrow>
   pages (fst (toc_rows sw idx es (c, y, n))) = []
   \<and> fst (snd (toc_rows sw idx es (c, y, n))) = 3348 / 5 - rat_of_nat (k + length es) * (0.32 * inch)"
proof (induction es arbitrary: c y n idx k)
  case Nil
  then show ?case by simp
next
  case (Cons e es)
  obtain c' y' n' where st: "toc_row sw idx e (c, y, n) = (c', y', n')"
    by (cases "toc_row sw idx e (c, y, n)") auto
  have k: "k \<le> 24" using Cons.prems(3) by simp
  have nb: "\<not> (y < margin + 0.5 * inch)"
    unfolding Cons.prems(2) by (rule first_page_no_break [OF k])
  have p': "pages c' = []"
    using toc_row_pages [of sw idx e c y n] nb Cons.prems(1) by (simp add: st)
  have "y' = fst (snd (toc_row sw idx e (c, y, n)))"
    by (simp add: st)
  also have "\<dots> = y - 0.32 * inch"
    using nb by (simp add: toc_row_y)
  finally have "y' = y - 0.32 * inch" .
  then have y': "y' = 3348 / 5 - rat_of_nat (Suc k) * (0.32 * inch)"
    unfolding Cons.prems(2) by (simp add: inch_def field_simps)
  have "Suc k + length es \<le> 25" using Cons.prems(3) by simp
  from Cons.IH [OF p' y' this, of "idx + 1" n'] show ?case
    by (simp add: st)
qed

lemma toc_rows_pages_mono:
  "length (pages c) \<le> length (pages (fst (toc_rows sw idx es (c, y, n))))"
proof (induction es arbitrary: c y n idx)
  case Nil
  then show ?case by simp
next
  case (Cons e es)
  obtain c' y' n' where st: "toc_row sw idx e (c, y, n) = (c', y', n')"
    by (cases "toc_row sw idx e (c, y, n)") auto
  have "length (pages c) \<le> length (pages c')"
    using toc_row_pages [of sw idx e c y n] by (simp add: st)
  also have "\<dots> \<le> length (pages (fst (toc_rows sw (idx + 1) es (c', y', n'))))"
    by (rule Cons.IH)
  finally show ?case by (simp add: st)
qed

lemma toc_rows_append:
  "toc_rows sw idx (es @ fs) st = toc_rows sw (idx + length es) fs (toc_rows sw idx es st)"
  by (induction es arbitrary: idx st) simp_all


lemma toc_rows_second_page:
  assumes "25 < length es"
  shows "pages (fst (toc_rows sw 0 es (fst toc_header, snd toc_header, n))) \<noteq> []"
proof -
  define es1 where "es1 = take 25 es"
  define e where "e = es ! 25"
  define es2 where "es2 = drop (Suc 25) es"
  have es: "es = es1 @ e # es2"
    unfolding es1_def e_def es2_def using assms by (intro id_take_nth_drop)
  have len1: "length es1 = 25" unfolding es1_def using assms by simp
  obtain c1 y1 n1 where st1: "toc_rows sw 0 es1 (fst toc_header, snd toc_header, n) = (c1, y1, n1)"
    by (cases "toc_rows sw 0 es1 (fst toc_header, snd toc_header, n)") auto
  have "fst (snd (toc_rows sw 0 es1 (fst toc_header, snd toc_header, n)))
          = 3348 / 5 - rat_of_nat (0 + length es1) * (0.32 * inch)"
    using toc_rows_first_page [of "fst toc_header" "snd toc_header" 0 es1 sw 0 n]
    by (simp add: toc_header_canvas toc_header_y len1)
  then have y1: "y1 < margin + 0.5 * inch"
    by (simp add: st1 len1 margin_def inch_def)
  obtain c2 y2 n2 where st2: "toc_row sw 25 e (c1, y1, n1) = (c2, y2, n2)"
    by (cases "toc_row sw 25 e (c1, y1, n1)") auto
  have "pages c2 \<noteq> []"
    using toc_row_pages [of sw 25 e c1 y1 n1] y1 by (simp add: st2)
  then have "0 < length (pages c2)" by simp
  also have "\<dots> \<le> length (pages (fst (toc_rows sw 26 es2 (c2, y2, n2))))"
    by (rule toc_rows_pages_mono)
  finally have "pages (fst (toc_rows sw 26 es2 (c2, y2, n2))) \<noteq> []"
    by auto
  moreover have "toc_rows sw 0 es (fst toc_header, snd toc_header, n)
                   = toc_rows sw 26 es2 (c2, y2, n2)"
    by (subst es) (simp add: toc_rows_append st1 len1 st2)
  ultimately show ?thesis
    by simp
qed


lemma header_layout_snoc:
  "header_layout (ps @ [q]) \<longleftrightarrow>
     (if ps = [] then \<not> has_continued_header q else header_layout ps \<and> has_continued_header q)"
  by (cases ps) (auto simp: header_layout_def)

lemma header_layout_nth:
  "header_layout ps \<Longrightarrow> i < length ps \<Longrightarrow> has_continued_header (ps ! i) \<longleftrightarrow> 0 < i"
  by (cases ps; cases i) (auto simp: header_layout_def list_all_length)

lemma toc_row_layout:
  assumes "header_layout (pages c @ [Drawn (pagesize c) (code c)])"
  shows "header_layout (pages (fst (toc_row sw idx e (c, y, n)))
           @ [Drawn (pagesize (fst (toc_row sw idx e (c, y, n)))) (code (fst (toc_row sw idx e (c, y, n))))])"
  using assms
  by (auto simp: header_layout_snoc toc_row_pages toc_row_pagesize toc_row_code_header
        page_number_code_header split: if_splits)

lemma toc_rows_layout:
  "header_layout (pages c @ [Drawn (pagesize c) (code c)]) \<Longrightarrow>
   header_layout (pages (fst (toc_rows sw idx es (c, y, n)))
     @ [Drawn (pagesize (fst (toc_rows sw idx es (c, y, n)))) (code (fst (toc_rows sw idx es (c, y, n))))])"
proof (induction es arbitrary: c y n idx)
  case Nil
  then show ?case by simp
next
  case (Cons e es)
  obtain c' y' n' where st: "toc_row sw idx e (c, y, n) = (c', y', n')"
    by (cases "toc_row sw idx e (c, y, n)") auto
  have "header_layout (pages c' @ [Drawn (pagesize c') (code c')])"
    using toc_row_layout [OF Cons.prems, of sw idx e y n] by (simp add: st)
  from Cons.IH [OF this] show ?case
    by (simp add: st)
qed

lemma make_toc_pdf_eq:
  "make_toc_pdf sw es =
     (case toc_rows sw 0 es (fst toc_header, snd toc_header, 1) of
        (c, y, n) \<Rightarrow> pages c @ [Drawn (pagesize c) (code (draw_page_number n c))])"
  by (simp add: make_toc_pdf_def save_def canvas_defs Let_def case_prod_beta)

lemma toc_header_layout:
  "header_layout (pages (fst toc_header) @ [Drawn (pagesize (fst toc_header)) (code (fst toc_header))])"
  by (simp add: header_layout_def toc_header_canvas)

lemma make_toc_pdf_layout: "header_layout (make_toc_pdf sw es)"
proof -
  obtain c y n where st: "toc_rows sw 0 es (fst toc_header, snd toc_header, 1) = (c, y, n)"
    by (cases "toc_rows sw 0 es (fst toc_header, snd toc_header, 1)") auto
  have "header_layout (pages c @ [Drawn (pagesize c) (code c)])"
    using toc_rows_layout [OF toc_header_layout, of sw 0 es "snd toc_header" 1]
    unfolding st by simp
  then show ?thesis
    unfolding make_toc_pdf_eq st
    by (auto simp: header_layout_snoc page_number_code_header split: if_splits)
qed

lemma length_make_toc_pdf:
  "length (make_toc_pdf sw es) = Suc (length (pages (fst (toc_rows sw 0 es (fst toc_header, snd toc_header, 1)))))"
  by (simp add: make_toc_pdf_eq split: prod.splits)

lemma toc_single_page: "length es \<le> 25 \<Longrightarrow> length (make_toc_pdf sw es) = 1"
  using toc_rows_first_page [of "fst toc_header" "snd toc_header" 0 es sw 0 1]
  by (simp add: length_make_toc_pdf toc_header_canvas toc_header_y)

lemma toc_several_pages: "25 < length es \<Longrightarrow> 1 < length (make_toc_pdf sw es)"
  using toc_rows_second_page [of es sw 1]
  by (simp add: length_make_toc_pdf)

text \<open>
  C6. In \<open>make_toc_pdf\<close>, a turn of the loop finishes a page before drawing its row exactly
  when \<open>y\<close> is below \<open>margin + 0.5 * inch\<close>, that is, when less than half an inch is left
  above the bottom margin. Entries whose rows are together higher than the usable height
  of a page (the first row's height above the bottom margin) give more than one page; in
  fact there is more than one page exactly when there are more than 25 entries. The
  continuation header is on every page but the first.
\<close>

theorem toc_pagination:
  "(pages (fst (toc_row sw idx e (c, y, n))) \<noteq> pages c \<longleftrightarrow> y < margin + 0.5 * inch)
   \<and> (snd toc_header - margin < rat_of_nat (length es) * (0.32 * inch) \<longrightarrow> 1 < length (make_toc_pdf sw es))
   \<and> (1 < length (make_toc_pdf sw es) \<longleftrightarrow> 25 < length es)
   \<and> (\<forall>i < length (make_toc_pdf sw es). has_continued_header (make_toc_pdf sw es ! i) \<longleftrightarrow> 0 < i)"
proof (intro conjI)
  show "pages (fst (toc_row sw idx e (c, y, n))) \<noteq> pages c \<longleftrightarrow> y < margin + 0.5 * inch"
    by (simp add: toc_row_pages)
  show many: "1 < length (make_toc_pdf sw es) \<longleftrightarrow> 25 < length es"
    using toc_single_page [of es sw] toc_several_pages [of es sw]
    by (cases "25 < length es") simp_all
  show "snd toc_header - margin < rat_of_nat (length es) * (0.32 * inch) \<longrightarrow> 1 < length (make_toc_pdf sw es)"
  proof
    assume h: "snd toc_header - margin < rat_of_nat (length es) * (0.32 * inch)"
    have "25 < length es"
    proof (rule ccontr)
      assume "\<not> 25 < length es"
      then have "rat_of_nat (length es) \<le> 25" by simp
      with h show False by (simp add: toc_header_y margin_def inch_def)
    qed
    with many show "1 < length (make_toc_pdf sw es)" by simp
  qed
  show "\<forall>i < length (make_toc_pdf sw es). has_continued_header (make_toc_pdf sw es ! i) \<longleftrightarrow> 0 < i"
    using header_layout_nth [OF make_toc_pdf_layout] by blast
qed

theorem toc_pagination_witness:
  "snd toc_header - margin
     < rat_of_nat (length (replicate 27 (''x.pdf'', 1::nat))) * (0.32 * inch)
   \<and> 1 < length (make_toc_pdf (stringWidth demo_world) (replicate 27 (''x.pdf'', 1)))
   \<and> \<not> has_continued_header (make_toc_pdf (stringWidth demo_world) (replicate 27 (''x.pdf'', 1)) ! 0)
   \<and> has_continued_header (make_toc_pdf (stringWidth demo_world) (replicate 27 (''x.pdf'', 1)) ! 1)"
proof -
  let ?es = "replicate 27 (''x.pdf'', 1::nat)"
  let ?toc = "make_toc_pdf (stringWidth demo_world) ?es"
  note t = toc_pagination [of "stringWidth demo_world" 0 "(''x.pdf'', 1)" "fst toc_header"
      "snd toc_header" 1 ?es]
  have high: "snd toc_header - margin < rat_of_nat (length ?es) * (0.32 * inch)"
    by (simp add: toc_header_y margin_def inch_def)
  with t have len: "1 < length ?toc" by blast
  from t have all: "\<forall>i < length ?toc. has_continued_header (?toc ! i) \<longleftrightarrow> 0 < i" by blast
  have pos: "0 < length ?toc" by (rule less_trans [OF zero_less_one len])
  have "\<not> has_continued_header (?toc ! 0)" using all [rule_format, OF pos] by simp
  moreover have "has_continued_header (?toc ! 1)" using all [rule_format, OF len] by simp
  ultimately show ?thesis using high len by blast
qed

section \<open>The heights compared with the threshold\<close>

lemma grid_high:
  fixes r :: rat
  shows "r \<le> 24 \<Longrightarrow> margin + 0.5 * inch + 7 \<le> 3348 / 5 - r * (576 / 25)"
    and "r \<le> 25 \<Longrightarrow> margin + 0.5 * inch + 7 \<le> 3438 / 5 - r * (576 / 25)"
  unfolding margin_def inch_def by simp_all

lemma grid_low:
  "3348 / 5 - 25 * (576 / 25) + 7 \<le> margin + 0.5 * inch"
  "3438 / 5 - 26 * (576 / 25) + 7 \<le> margin + 0.5 * inch"
  unfolding margin_def inch_def by simp_all

lemma grid_next:
  fixes r :: rat
  shows "a - r * (576 / 25) - 0.32 * inch = a - (r + 1) * (576 / 25)"
    and "page_h - margin - 0.15 * inch - 0.4 * inch - 0.32 * inch = 3438 / 5 - 1 * (576 / 25)"
  unfolding page_h_def letter_def margin_def inch_def by (simp_all add: field_simps)

lemma on_grid_cases:
  assumes "on_grid y"
  obtains (high) r where "y = 3348 / 5 - rat_of_nat r * (576 / 25)" "r \<le> 24"
    | (high') r where "y = 3438 / 5 - rat_of_nat r * (576 / 25)" "1 \<le> r" "r \<le> 25"
    | (low) "y = 3348 / 5 - 25 * (576 / 25)"
    | (low') "y = 3438 / 5 - 26 * (576 / 25)"
proof -
  from assms consider
    k where "k \<le> 25" "y = 3348 / 5 - rat_of_nat k * (576 / 25)"
  | k where "1 \<le> k" "k \<le> 26" "y = 3438 / 5 - rat_of_nat k * (576 / 25)"
    unfolding on_grid_def by blast
  then show thesis
  proof cases
    case 1
    show thesis
    proof (cases "k = 25")
      case True then show thesis using 1 low by simp
    next
      case False then show thesis using 1 high [of k] by simp
    qed
  next
    case 2
    show thesis
    proof (cases "k = 26")
      case True then show thesis using 2 low' by simp
    next
      case False then show thesis using 2 high' [of k] by simp
    qed
  qed
qed


lemma on_grid_clear:
  assumes "on_grid y"
  shows "7 \<le> \<bar>y - (margin + 0.5 * inch)\<bar>"
  using assms
proof (cases rule: on_grid_cases)
  case (high r)
  have "rat_of_nat r \<le> 24" using high(2) by simp
  from grid_high(1) [OF this] show ?thesis unfolding high(1) by linarith
next
  case (high' r)
  have "rat_of_nat r \<le> 25" using high'(3) by simp
  from grid_high(2) [OF this] show ?thesis unfolding high'(1) by linarith
next
  case low
  show ?thesis using grid_low(1) unfolding low by linarith
next
  case low'
  show ?thesis using grid_low(2) unfolding low' by linarith
qed

lemma on_grid_step:
  assumes "on_grid y"
  shows "on_grid ((if y < margin + 0.5 * inch then page_h - margin - 0.15 * inch - 0.4 * inch else y)
                   - 0.32 * inch)"
proof -
  have restart: "on_grid (page_h - margin - 0.15 * inch - 0.4 * inch - 0.32 * inch)"
    unfolding on_grid_def grid_next(2)
    by (intro disjI2 exI [of _ 1]) simp
  from assms show ?thesis
  proof (cases rule: on_grid_cases)
    case (high r)
    have "rat_of_nat r \<le> 24" using high(2) by simp
    from grid_high(1) [OF this] have nb: "\<not> y < margin + 0.5 * inch"
      unfolding high(1) by linarith
    have eq: "y - 0.32 * inch = 3348 / 5 - rat_of_nat (Suc r) * (576 / 25)"
      unfolding high(1) grid_next(1) by simp
    have "on_grid (y - 0.32 * inch)"
      unfolding on_grid_def eq using high(2)
      by (intro disjI1 exI [of _ "Suc r"]) simp
    then show ?thesis using nb by (simp only: if_False)
  next
    case (high' r)
    have "rat_of_nat r \<le> 25" using high'(3) by simp
    from grid_high(2) [OF this] have nb: "\<not> y < margin + 0.5 * inch"
      unfolding high'(1) by linarith
    have eq: "y - 0.32 * inch = 3438 / 5 - rat_of_nat (Suc r) * (576 / 25)"
      unfolding high'(1) grid_next(1) by simp
    have "on_grid (y - 0.32 * inch)"
      unfolding on_grid_def eq using high'(3)
      by (intro disjI2 exI [of _ "Suc r"]) simp
    then show ?thesis using nb by (simp only: if_False)
  next
    case low
    have "y < margin + 0.5 * inch" using grid_low(1) unfolding low by linarith
    then show ?thesis using restart by (simp only: if_True)
  next
    case low'
    have "y < margin + 0.5 * inch" using grid_low(2) unfolding low' by linarith
    then show ?thesis using restart by (simp only: if_True)
  qed
qed

lemma compared_heights_clear:
  "on_grid y \<Longrightarrow> h \<in> set (compared_heights sw idx es (c, y, n)) \<Longrightarrow> 7 \<le> \<bar>h - (margin + 0.5 * inch)\<bar>"
proof (induction es arbitrary: c y n idx)
  case Nil
  then show ?case by simp
next
  case (Cons e es)
  obtain c' y' n' where st: "toc_row sw idx e (c, y, n) = (c', y', n')"
    by (cases "toc_row sw idx e (c, y, n)") auto
  have "y' = fst (snd (toc_row sw idx e (c, y, n)))" by (simp add: st)
  then have grid': "on_grid y'"
    using on_grid_step [OF Cons.prems(1)] by (simp only: toc_row_y)
  from Cons.prems(2) consider "h = y" | "h \<in> set (compared_heights sw (idx + 1) es (c', y', n'))"
    by (auto simp: st)
  then show ?case
  proof cases
    case 1
    then show ?thesis using on_grid_clear [OF Cons.prems(1)] by simp
  next
    case 2
    from Cons.IH [OF grid' 2] show ?thesis .
  qed
qed

lemma toc_rows_clear_of_threshold:
  "h \<in> set (compared_heights sw 0 es (fst toc_header, snd toc_header, 1))
   \<Longrightarrow> 7 \<le> \<bar>h - (margin + 0.5 * inch)\<bar>"
proof (rule compared_heights_clear)
  show "on_grid (snd toc_header)"
    unfolding on_grid_def toc_header_y by (intro disjI1 exI [of _ 0]) simp
qed

section \<open>The cover page\<close>

lemma save_fallback: "save (fallback_title (Canvas letter)) = [fallback_page]"
  by (simp add: save_def fallback_title_def Canvas_def setFont_def drawCentredString_def
        showPage_def fallback_page_def)

lemma save_cover_image:
  "draw_cover_image w p (Canvas letter) = Inr c \<Longrightarrow> \<exists>d. save c = [Drawn letter [d]]"
  by (cases "Image_open w p")
     (auto simp: draw_cover_image_def Let_def save_def drawImage_def Canvas_def showPage_def
           split: if_splits option.splits)

lemma draw_cover_image_decoded:
  assumes "Image_open w p = Inr (iw, ih)" "0 < iw" "0 < ih" "image_draw_error w p = None"
  shows "draw_cover_image w p c =
           Inr (let scale = min (page_w / rat_of_nat iw) (page_h / rat_of_nat ih)
                in drawImage p ((page_w - rat_of_nat iw * scale) / 2)
                     ((page_h - rat_of_nat ih * scale) / 2)
                     (rat_of_nat iw * scale) (rat_of_nat ih * scale) True c)"
  using assms by (simp add: draw_cover_image_def Let_def)

lemma save_drawImage:
  "save (drawImage p x y nw nh k (Canvas letter)) = [Drawn letter [Image p x y nw nh k]]"
  by (simp add: save_def drawImage_def Canvas_def showPage_def)

lemma make_cover_pdf_cases:
  "make_cover_pdf w p =
     (if exists w p then
        (case draw_cover_image w p (Canvas letter) of
           Inr c \<Rightarrow> ([], save c)
         | Inl e \<Rightarrow> ([''Warning: Could not add cover image: '' @ e], [fallback_page]))
      else ([], [fallback_page]))"
  by (simp add: make_cover_pdf_def save_fallback split: sum.splits)

lemma cover_one_page: "\<exists>ops. snd (make_cover_pdf w p) = [Drawn letter ops]"
proof (cases "exists w p")
  case False
  then show ?thesis by (simp add: make_cover_pdf_cases fallback_page_def)
next
  case True
  show ?thesis
  proof (cases "draw_cover_image w p (Canvas letter)")
    case (Inl e)
    then show ?thesis using True by (simp add: make_cover_pdf_cases fallback_page_def)
  next
    case (Inr c)
    from save_cover_image [OF Inr] show ?thesis using True Inr
      by (auto simp: make_cover_pdf_cases)
  qed
qed

lemma length_cover: "length (snd (make_cover_pdf w p)) = 1"
  using cover_one_page [of w p] by auto

text \<open>
  C7. Whatever the cover image is, \<open>make_cover_pdf\<close> gives exactly one page of letter
  size, 612 by 792 points. Without a file at the path the page is the fallback title page
  and nothing is printed. With a file, when the \<open>try\<close> block raises (the image does not
  decode, in particular) the page is the fallback title page and one warning is printed;
  when the image decodes and is placed, the page holds the image, scaled to fit and
  centred, and nothing is printed. A warning is printed only when a file is there and the
  \<open>try\<close> block raised.
\<close>

theorem cover_single_page:
  "(\<exists>ops. snd (make_cover_pdf w p) = [Drawn letter ops])
   \<and> letter = (612, 792)
   \<and> (\<not> exists w p \<longrightarrow> make_cover_pdf w p = ([], [fallback_page]))
   \<and> (exists w p \<longrightarrow> draw_cover_image w p (Canvas letter) = Inl e \<longrightarrow>
        make_cover_pdf w p = ([''Warning: Could not add cover image: '' @ e], [fallback_page]))
   \<and> (Image_open w p = Inl e \<longrightarrow> draw_cover_image w p (Canvas letter) = Inl e)
   \<and> (exists w p \<longrightarrow> Image_open w p = Inr (iw, ih) \<longrightarrow> 0 < iw \<longrightarrow> 0 < ih \<longrightarrow>
        image_draw_error w p = None \<longrightarrow>
        make_cover_pdf w p =
          ([], [Drawn letter
                 [let scale = min (page_w / rat_of_nat iw) (page_h / rat_of_nat ih)
                  in Image p ((page_w - rat_of_nat iw * scale) / 2)
                       ((page_h - rat_of_nat ih * scale) / 2)
                       (rat_of_nat iw * scale) (rat_of_nat ih * scale) True]]))
   \<and> (fst (make_cover_pdf w p) \<noteq> [] \<longrightarrow>
        exists w p \<and> (\<exists>e'. draw_cover_image w p (Canvas letter) = Inl e'))"
proof (intro conjI impI)
  show "\<exists>ops. snd (make_cover_pdf w p) = [Drawn letter ops]"
    by (rule cover_one_page)
  show "letter = (612, 792)"
    by (simp add: letter_def inch_def)
  show "make_cover_pdf w p = ([], [fallback_page])" if "\<not> exists w p"
    using that by (simp add: make_cover_pdf_cases)
  show "make_cover_pdf w p = ([''Warning: Could not add cover image: '' @ e], [fallback_page])"
    if "exists w p" "draw_cover_image w p (Canvas letter) = Inl e"
    using that by (simp add: make_cover_pdf_cases)
  show "draw_cover_image w p (Canvas letter) = Inl e" if "Image_open w p = Inl e"
    using that by (simp add: draw_cover_image_def)
  show "make_cover_pdf w p =
          ([], [Drawn letter
                 [let scale = min (page_w / rat_of_nat iw) (page_h / rat_of_nat ih)
                  in Image p ((page_w - rat_of_nat iw * scale) / 2)
                       ((page_h - rat_of_nat ih * scale) / 2)
                       (rat_of_nat iw * scale) (rat_of_nat ih * scale) True]])"
    if "exists w p" "Image_open w p = Inr (iw, ih)" "0 < iw" "0 < ih"
      "image_draw_error w p = None"
    using that(1) draw_cover_image_decoded [OF that(2-5), of "Canvas letter"]
    by (simp add: make_cover_pdf_cases Let_def save_drawImage)
  show "exists w p" if "fst (make_cover_pdf w p) \<noteq> []"
    using that by (simp add: make_cover_pdf_cases split: if_splits)
  show "\<exists>e'. draw_cover_image w p (Canvas letter) = Inl e'" if "fst (make_cover_pdf w p) \<noteq> []"
    using that by (cases "draw_cover_image w p (Canvas letter)")
      (auto simp: make_cover_pdf_cases split: if_splits)
qed

theorem cover_single_page_witness:
  "\<not> exists demo_world ''c.png''
   \<and> make_cover_pdf demo_world ''c.png'' = ([], [fallback_page])
   \<and> exists (demo_world\<lparr>exists := \<lambda>p. True\<rparr>) ''c.png''
   \<and> Image_open (demo_world\<lparr>exists := \<lambda>p. True\<rparr>) ''c.png'' = Inl ''cannot identify image file''
   \<and> make_cover_pdf (demo_world\<lparr>exists := \<lambda>p. True\<rparr>) ''c.png''
       = ([''Warning: Could not add cover image: cannot identify image file''], [fallback_page])
   \<and> make_cover_pdf (demo_world\<lparr>exists := \<lambda>p. True, Image_open := \<lambda>p. Inr (1224, 792)\<rparr>) ''c.png''
       = ([], [Drawn letter [Image ''c.png'' 0 198 612 396 True]])"
proof -
  let ?w2 = "demo_world\<lparr>exists := \<lambda>p. True\<rparr>"
  let ?w3 = "demo_world\<lparr>exists := \<lambda>p. True, Image_open := \<lambda>p. Inr (1224, 792)\<rparr>"
  have a: "\<not> exists demo_world ''c.png''"
    by (simp add: demo_world_def)
  have b: "exists ?w2 ''c.png''" "Image_open ?w2 ''c.png'' = Inl ''cannot identify image file''"
    by (simp_all add: demo_world_def)
  have c: "exists ?w3 ''c.png''" "Image_open ?w3 ''c.png'' = Inr (1224, 792)"
    "image_draw_error ?w3 ''c.png'' = None"
    by (simp_all add: demo_world_def)
  note t1 = cover_single_page [of demo_world "''c.png''"]
  note t2 = cover_single_page [of ?w2 "''c.png''" "''cannot identify image file''"]
  note t3 = cover_single_page [of ?w3 "''c.png''" _ 1224 792]
  have "make_cover_pdf demo_world ''c.png'' = ([], [fallback_page])"
    using t1 a by blast
  moreover have "make_cover_pdf ?w2 ''c.png''
       = ([''Warning: Could not add cover image: cannot identify image file''], [fallback_page])"
    using t2 b by simp
  moreover have "make_cover_pdf ?w3 ''c.png'' = ([], [Drawn letter [Image ''c.png'' 0 198 612 396 True]])"
    using t3 c by (simp add: Let_def page_w_def page_h_def letter_def inch_def)
  ultimately show ?thesis using a b by blast
qed

section \<open>The catalog and the container\<close>

lemma length_offsets [simp]: "length (offsets k ns) = length ns"
  by (induction ns arbitrary: k) simp_all

lemma offsets_nth: "i < length ns \<Longrightarrow> offsets k ns ! i = k + sum_list (take i ns)"
proof (induction ns arbitrary: k i)
  case Nil
  then show ?case by simp
next
  case (Cons n ns)
  then show ?case by (cases i) (simp_all add: add.assoc)
qed

lemma offsets_ge: "x \<in> set (offsets k ns) \<Longrightarrow> k \<le> x"
proof (induction ns arbitrary: k)
  case Nil
  then show ?case by simp
next
  case (Cons n ns)
  then show ?case by fastforce
qed

lemma offsets_sorted: "sorted (offsets k ns)"
proof (induction ns arbitrary: k)
  case Nil
  then show ?case by simp
next
  case (Cons n ns)
  have "\<forall>x\<in>set (offsets (k + n) ns). k \<le> x"
    using offsets_ge [of _ "k + n" ns] by fastforce
  with Cons.IH [of "k + n"] show ?case by simp
qed

lemma offsets_strict: "sorted_wrt (<) (offsets k ns) \<longleftrightarrow> (\<forall>n\<in>set (butlast ns). 0 < n)"
proof (induction ns arbitrary: k)
  case Nil
  then show ?case by simp
next
  case (Cons n ns)
  show ?case
  proof (cases ns)
    case Nil
    then show ?thesis by simp
  next
    case (Cons m ms)
    have first: "k + n \<in> set (offsets (k + n) ns)"
      using Cons by simp
    have "(\<forall>x\<in>set (offsets (k + n) ns). k < x) \<longleftrightarrow> 0 < n"
    proof
      assume "\<forall>x\<in>set (offsets (k + n) ns). k < x"
      with first show "0 < n" by fastforce
    next
      assume "0 < n"
      then show "\<forall>x\<in>set (offsets (k + n) ns). k < x"
        using offsets_ge [of _ "k + n" ns] by fastforce
    qed
    with Cons.IH [of "k + n"] Cons show ?thesis by auto
  qed
qed

lemma catalog_eq:
  "\<forall>p\<in>set ps. \<not> unpaged w p \<Longrightarrow>
   catalog w ps (out, rs, es, cur) =
     (out @ skip_warnings w ps,
      Inr (rs @ opened w ps,
           es @ zip (map fst (opened w ps)) (map Suc (offsets cur (page_counts (opened w ps)))),
           cur + sum_list (page_counts (opened w ps))))"
proof (induction ps arbitrary: out rs es cur)
  case Nil
  then show ?case by (simp add: skip_warnings_def opened_def page_counts_def)
next
  case (Cons p ps)
  then have rest: "\<forall>p\<in>set ps. \<not> unpaged w p"
    by simp
  show ?case
  proof (cases "PdfReader w p")
    case (Inl e)
    then show ?thesis
      by (simp add: Cons.IH [OF rest] skip_warnings_def opened_def readable_def)
  next
    case (Inr r)
    with Cons.prems have "pages_error w p = None"
      by (simp add: unpaged_def)
    with Inr show ?thesis
      by (simp add: Cons.IH [OF rest] skip_warnings_def opened_def readable_def page_counts_def
            add.assoc)
  qed
qed

lemma catalog_abort:
  "\<exists>p\<in>set ps. unpaged w p \<Longrightarrow> \<exists>e. snd (catalog w ps (out, rs, es, cur)) = Inl e"
proof (induction ps arbitrary: out rs es cur)
  case Nil
  then show ?case by simp
next
  case (Cons p ps)
  show ?case
  proof (cases "unpaged w p")
    case True
    then show ?thesis
      by (auto simp: unpaged_def split: sum.splits)
  next
    case False
    with Cons.prems have "\<exists>p\<in>set ps. unpaged w p"
      by simp
    from Cons.IH [OF this] show ?thesis
      by (simp split: sum.splits option.splits)
  qed
qed

lemma cataloged_eq:
  "cataloged w ps = (if \<exists>p\<in>set ps. unpaged w p then [] else opened w ps)"
proof (cases "\<exists>p\<in>set ps. unpaged w p")
  case True
  from catalog_abort [OF this, of "[]" "[]" "[]" 0] show ?thesis
    using True by (auto simp: cataloged_def)
next
  case False
  then have "\<forall>p\<in>set ps. \<not> unpaged w p" by simp
  from catalog_eq [OF this, of "[]" "[]" "[]" 0] show ?thesis
    using False by (simp add: cataloged_def)
qed

lemma toc_entries_eq:
  "toc_entries w ps = zip (map fst (cataloged w ps)) (map Suc (offsets 0 (page_counts (cataloged w ps))))"
proof (cases "\<exists>p\<in>set ps. unpaged w p")
  case True
  from catalog_abort [OF this, of "[]" "[]" "[]" 0] show ?thesis
    by (auto simp: cataloged_def toc_entries_def page_counts_def)
next
  case False
  then have "\<forall>p\<in>set ps. \<not> unpaged w p" by simp
  from catalog_eq [OF this, of "[]" "[]" "[]" 0] show ?thesis
    by (simp add: cataloged_def toc_entries_def)
qed

lemma cataloged_paged: "cataloged w ps \<noteq> [] \<Longrightarrow> \<forall>p\<in>set ps. \<not> unpaged w p"
  by (auto simp: cataloged_eq split: if_splits)

lemma fold_add_page: "fold add_page ps wr = wr\<lparr>wpages := wpages wr @ ps\<rparr>"
  by (induction ps arbitrary: wr) (simp_all add: add_page_def)

lemma fold_append_document:
  "fold append_document rs (wr, k) =
     (wr\<lparr>wpages := wpages wr @ concat (map snd rs),
         outline := outline wr @ zip (map (\<lambda>r. display_name (fst r)) rs) (offsets k (page_counts rs))\<rparr>,
      k + sum_list (page_counts rs))"
proof (induction rs arbitrary: wr k)
  case Nil
  then show ?case by (simp add: page_counts_def)
next
  case (Cons r rs)
  obtain name reader where r: "r = (name, reader)" by (cases r)
  show ?case
    by (simp add: r Cons.IH Let_def fold_add_page add_outline_item_def page_counts_def add.assoc)
qed

lemma assemble_eq:
  assumes "\<forall>p\<in>set ps. \<not> unpaged w p"
  shows "assemble w ps =
     (if cataloged w ps = [] then (skip_warnings w ps, Inl (RuntimeError ''No readable PDFs to merge.''))
      else
        (skip_warnings w ps @ fst (make_cover_pdf w (cover_path w)),
         Inr \<lparr>wpages = snd (make_cover_pdf w (cover_path w))
                 @ make_toc_pdf (stringWidth w) (toc_entries w ps)
                 @ concat (map snd (cataloged w ps)),
              outline = (''Cover'', 0)
                 # (''Table of Contents'', length (snd (make_cover_pdf w (cover_path w))))
                 # zip (map (\<lambda>r. display_name (fst r)) (cataloged w ps))
                     (offsets (length (snd (make_cover_pdf w (cover_path w)))
                                + length (make_toc_pdf (stringWidth w) (toc_entries w ps)))
                        (page_counts (cataloged w ps)))\<rparr>))"
  by (simp add: assemble_def cataloged_def toc_entries_def catalog_eq [OF assms] Let_def
        case_prod_beta map_nth fold_add_page fold_append_document add_outline_item_def
        PdfWriter_def)

text \<open>
  C3. The start page shown for the first cataloged document is 1, and the start page of
  each later one is the start page of the one before plus that one's number of pages: the
  start page of entry \<open>i\<close> is 1 plus the pages of the entries before it. Only the source
  documents count; the cover and the TOC do not enter.
\<close>

theorem start_pages:
  "length (toc_entries w ps) = length (cataloged w ps)
   \<and> (\<forall>i<length (cataloged w ps).
         toc_entries w ps ! i
           = (fst (cataloged w ps ! i), 1 + sum_list (take i (page_counts (cataloged w ps)))))
   \<and> (cataloged w ps \<noteq> [] \<longrightarrow> snd (toc_entries w ps ! 0) = 1)
   \<and> (\<forall>i. Suc i < length (cataloged w ps) \<longrightarrow>
         snd (toc_entries w ps ! Suc i)
           = snd (toc_entries w ps ! i) + length (snd (cataloged w ps ! i)))"
proof -
  let ?rs = "cataloged w ps"
  let ?ns = "page_counts ?rs"
  have len: "length ?ns = length ?rs"
    by (simp add: page_counts_def)
  have nth: "toc_entries w ps ! i = (fst (?rs ! i), 1 + sum_list (take i ?ns))"
    if "i < length ?rs" for i
    using that by (simp add: toc_entries_eq [of w ps] len offsets_nth)
  have step: "snd (toc_entries w ps ! Suc i) = snd (toc_entries w ps ! i) + length (snd (?rs ! i))"
    if "Suc i < length ?rs" for i
  proof -
    have i: "i < length ?rs" using that by simp
    have "take (Suc i) ?ns = take i ?ns @ [?ns ! i]"
      using i len by (simp add: take_Suc_conv_app_nth)
    moreover have "?ns ! i = length (snd (?rs ! i))"
      using i by (simp add: page_counts_def)
    ultimately show ?thesis
      by (simp add: nth [OF that] nth [OF i])
  qed
  have "length (toc_entries w ps) = length ?rs"
    by (simp add: toc_entries_eq [of w ps] len)
  moreover have "snd (toc_entries w ps ! 0) = 1" if "?rs \<noteq> []"
    using that nth [of 0] by simp
  ultimately show ?thesis
    using nth step by blast
qed


lemma demo_cataloged:
  "cataloged demo_world [''in/a.pdf'', ''in/b.pdf'', ''in/bad.pdf'', ''in/c.pdf'']
     = [(''a.pdf'', [Source ''a1'']), (''b.pdf'', [Source ''b1'', Source ''b2'']),
        (''c.pdf'', [Source ''c1'', Source ''c2'', Source ''c3'', Source ''c4'', Source ''c5''])]"
  by (simp add: cataloged_def demo_world_def basename_def)

theorem start_pages_witness:
  "cataloged demo_world [''in/a.pdf'', ''in/b.pdf'', ''in/bad.pdf'', ''in/c.pdf''] \<noteq> []
   \<and> snd (toc_entries demo_world [''in/a.pdf'', ''in/b.pdf'', ''in/bad.pdf'', ''in/c.pdf''] ! 0) = 1
   \<and> Suc 0 < length (cataloged demo_world [''in/a.pdf'', ''in/b.pdf'', ''in/bad.pdf'', ''in/c.pdf''])
   \<and> snd (toc_entries demo_world [''in/a.pdf'', ''in/b.pdf'', ''in/bad.pdf'', ''in/c.pdf''] ! Suc 0) = 2
   \<and> toc_entries demo_world [''in/a.pdf'', ''in/b.pdf'', ''in/bad.pdf'', ''in/c.pdf''] ! 2
       = (''c.pdf'', 4)"
proof -
  let ?ps = "[''in/a.pdf'', ''in/b.pdf'', ''in/bad.pdf'', ''in/c.pdf'']"
  note t = start_pages [of demo_world ?ps]
  have ne: "cataloged demo_world ?ps \<noteq> []"
    by (simp add: demo_cataloged)
  have two: "Suc 0 < length (cataloged demo_world ?ps)"
    by (simp add: demo_cataloged)
  have three: "2 < length (cataloged demo_world ?ps)"
    by (simp add: demo_cataloged)
  have e0: "snd (toc_entries demo_world ?ps ! 0) = 1"
    using t ne by blast
  from t two have "snd (toc_entries demo_world ?ps ! Suc 0)
      = snd (toc_entries demo_world ?ps ! 0) + length (snd (cataloged demo_world ?ps ! 0))"
    by blast
  with e0 have e1: "snd (toc_entries demo_world ?ps ! Suc 0) = 2"
    by (simp add: demo_cataloged)
  from t three have "toc_entries demo_world ?ps ! 2
      = (fst (cataloged demo_world ?ps ! 2),
         1 + sum_list (take 2 (page_counts (cataloged demo_world ?ps))))"
    by blast
  then have e2: "toc_entries demo_world ?ps ! 2 = (''c.pdf'', 4)"
    by (simp add: demo_cataloged page_counts_def)
  from ne e0 two e1 e2 show ?thesis by blast
qed

lemma cataloged_all_readable:
  "\<forall>p\<in>set ps. readable w p \<Longrightarrow>
     cataloged w ps = map (\<lambda>p. (basename p, projr (PdfReader w p))) ps"
  by (auto simp: cataloged_eq opened_def readable_def unpaged_def)

lemma opened_filter: "opened w (filter (readable w) ps) = opened w ps"
  by (simp add: opened_def)

lemma skip_warnings_filter: "skip_warnings w (filter (readable w) ps) = []"
  by (induction ps) (auto simp: skip_warnings_def readable_def split: sum.splits)

lemma skip_warnings_mem:
  "p \<in> set ps \<Longrightarrow> PdfReader w p = Inl e \<Longrightarrow>
     ''WARNING: Skipping '' @ quoted p @ '' ('' @ e @ '')'' \<in> set (skip_warnings w ps)"
  by (force simp: skip_warnings_def)

lemma length_toc_pos: "0 < length (make_toc_pdf sw es)"
  by (simp add: length_make_toc_pdf)

lemma merge_with_index_eq:
  "merge_with_index w store output_path ps =
     (case snd (assemble w ps) of
        Inl e \<Rightarrow> (fst (assemble w ps), Some e, store)
      | Inr wr \<Rightarrow>
          (case open_error w output_path of
             Some e \<Rightarrow> (fst (assemble w ps), Some (Raised e), store)
           | None \<Rightarrow> (fst (assemble w ps), None, store(output_path \<mapsto> wr))))"
  by (cases "assemble w ps") (auto simp: merge_with_index_def split: sum.splits option.splits)

lemma assemble_readable:
  assumes "cataloged w ps \<noteq> []"
  shows "assemble w ps =
        (skip_warnings w ps @ fst (make_cover_pdf w (cover_path w)),
         Inr \<lparr>wpages = snd (make_cover_pdf w (cover_path w))
                 @ make_toc_pdf (stringWidth w) (toc_entries w ps)
                 @ concat (map snd (cataloged w ps)),
              outline = (''Cover'', 0)
                 # (''Table of Contents'', length (snd (make_cover_pdf w (cover_path w))))
                 # zip (map (\<lambda>r. display_name (fst r)) (cataloged w ps))
                     (offsets (length (snd (make_cover_pdf w (cover_path w)))
                                + length (make_toc_pdf (stringWidth w) (toc_entries w ps)))
                        (page_counts (cataloged w ps)))\<rparr>)"
  using assms by (simp only: assemble_eq [OF cataloged_paged [OF assms]] if_False)

lemma sum_list_page_counts: "length (concat (map snd rs)) = sum_list (page_counts rs)"
  by (simp add: page_counts_def length_concat comp_def)

text \<open>
  C1. For a non-empty list of readable PDFs, \<open>merge_with_index\<close> builds a container whose
  pages are those of the cover, then those of the TOC, then those of every cataloged
  document in order, so that its page count is the sum of theirs; when the output path
  opens for writing, that container is what is stored there.
\<close>

theorem output_page_count:
  assumes "pdf_paths \<noteq> []" and "\<forall>p\<in>set pdf_paths. readable w p"
  shows "\<exists>out wr. assemble w pdf_paths = (out, Inr wr)
     \<and> (open_error w output_path = None \<longrightarrow>
          merge_with_index w store output_path pdf_paths = (out, None, store(output_path \<mapsto> wr)))
     \<and> cataloged w pdf_paths = map (\<lambda>p. (basename p, projr (PdfReader w p))) pdf_paths
     \<and> wpages wr = snd (make_cover_pdf w (cover_path w))
          @ make_toc_pdf (stringWidth w) (toc_entries w pdf_paths)
          @ concat (map snd (cataloged w pdf_paths))
     \<and> length (wpages wr) = length (snd (make_cover_pdf w (cover_path w)))
          + length (make_toc_pdf (stringWidth w) (toc_entries w pdf_paths))
          + sum_list (map (\<lambda>p. length (projr (PdfReader w p))) pdf_paths)"
proof -
  have cat: "cataloged w pdf_paths = map (\<lambda>p. (basename p, projr (PdfReader w p))) pdf_paths"
    using assms(2) by (rule cataloged_all_readable)
  then have ne: "cataloged w pdf_paths \<noteq> []"
    using assms(1) by simp
  have counts: "sum_list (page_counts (cataloged w pdf_paths))
                  = sum_list (map (\<lambda>p. length (projr (PdfReader w p))) pdf_paths)"
    by (simp add: cat page_counts_def comp_def)
  note asm = assemble_readable [OF ne]
  show ?thesis
    apply (rule exI [of _ "fst (assemble w pdf_paths)"])
    apply (rule exI [of _ "projr (snd (assemble w pdf_paths))"])
    apply (intro conjI impI)
        apply (simp add: asm)
       apply (simp add: merge_with_index_eq asm)
      apply (rule cat)
     apply (simp add: asm)
    apply (simp add: asm sum_list_page_counts counts)
    done
qed


lemma demo_readable:
  "readable demo_world ''in/a.pdf''" "readable demo_world ''in/b.pdf''"
  "readable demo_world ''in/c.pdf''" "\<not> readable demo_world ''in/bad.pdf''"
  by (simp_all add: readable_def demo_world_def)

theorem output_page_count_witness:
  "readable demo_world ''in/a.pdf'' \<and> readable demo_world ''in/b.pdf''
   \<and> readable demo_world ''in/c.pdf''
   \<and> (\<exists>out wr. merge_with_index demo_world Map.empty ''out.pdf'' [''in/a.pdf'', ''in/b.pdf'', ''in/c.pdf'']
                  = (out, None, [''out.pdf'' \<mapsto> wr])
          \<and> length (wpages wr) = 10)"
proof -
  let ?ps = "[''in/a.pdf'', ''in/b.pdf'', ''in/c.pdf'']"
  have ne: "?ps \<noteq> []" by simp
  have all: "\<forall>p\<in>set ?ps. readable demo_world p"
    by (simp add: demo_readable)
  have wr: "open_error demo_world ''out.pdf'' = None"
    by (simp add: demo_world_def)
  from output_page_count [OF ne all, of "''out.pdf''" Map.empty] wr
  obtain out wr where
    m: "merge_with_index demo_world Map.empty ''out.pdf'' ?ps = (out, None, [''out.pdf'' \<mapsto> wr])"
    and len: "length (wpages wr) = length (snd (make_cover_pdf demo_world (cover_path demo_world)))
          + length (make_toc_pdf (stringWidth demo_world) (toc_entries demo_world ?ps))
          + sum_list (map (\<lambda>p. length (projr (PdfReader demo_world p))) ?ps)"
    by blast
  have "length (toc_entries demo_world ?ps) \<le> 25"
    by (simp add: toc_entries_eq cataloged_eq opened_def page_counts_def)
  then have "length (make_toc_pdf (stringWidth demo_world) (toc_entries demo_world ?ps)) = 1"
    by (rule toc_single_page)
  moreover have "sum_list (map (\<lambda>p. length (projr (PdfReader demo_world p))) ?ps) = 8"
    by (simp add: demo_world_def)
  ultimately have "length (wpages wr) = 10"
    using len by (simp add: length_cover)
  with m demo_readable(1-3) show ?thesis by blast
qed

lemma outline_indices:
  assumes "length names = length ns"
  shows "map snd ((a, 0) # (b, cp) # zip names (offsets (cp + tp) ns)) = 0 # cp # offsets (cp + tp) ns"
  using assms by (simp add: map_snd_zip)

lemma indices_sorted: "sorted (0 # cp # offsets (cp + tp) ns)"
  using offsets_ge [of _ "cp + tp" ns] offsets_sorted [of "cp + tp" ns] by fastforce

lemma indices_strict:
  assumes "0 < cp" "0 < tp"
  shows "sorted_wrt (<) (0 # cp # offsets (cp + tp) ns) \<longleftrightarrow> (\<forall>n\<in>set (butlast ns). 0 < n)"
proof -
  have "\<forall>x\<in>set (offsets (cp + tp) ns). cp < x \<and> 0 < x"
    using offsets_ge [of _ "cp + tp" ns] assms by fastforce
  then show ?thesis
    using assms(1) by (auto simp: offsets_strict)
qed

text \<open>
  C2, amended. For a non-empty list of \<open>N\<close> readable PDFs exactly \<open>N + 2\<close> bookmarks are
  added: \<open>Cover\<close> at index 0, \<open>Table of Contents\<close> at the cover's page count, and one per
  document, titled by its display name, at the cover's page count plus the TOC's plus the
  pages of the documents appended before it. The indices never decrease, the cover's is
  below the TOC's, which is below the first document's, and they increase strictly
  throughout exactly when every document but the last has at least one page.
\<close>

theorem bookmarks_in_order:
  assumes "pdf_paths \<noteq> []" and "\<forall>p\<in>set pdf_paths. readable w p"
  shows "\<exists>out wr cover_pages toc_pages.
       assemble w pdf_paths = (out, Inr wr)
     \<and> (open_error w output_path = None \<longrightarrow>
          merge_with_index w store output_path pdf_paths = (out, None, store(output_path \<mapsto> wr)))
     \<and> cover_pages = length (snd (make_cover_pdf w (cover_path w)))
     \<and> toc_pages = length (make_toc_pdf (stringWidth w) (toc_entries w pdf_paths))
     \<and> length (outline wr) = length pdf_paths + 2
     \<and> outline wr ! 0 = (''Cover'', 0)
     \<and> outline wr ! 1 = (''Table of Contents'', cover_pages)
     \<and> (\<forall>i<length pdf_paths.
           outline wr ! (i + 2)
             = (display_name (basename (pdf_paths ! i)),
                cover_pages + toc_pages
                  + sum_list (take i (map (\<lambda>p. length (projr (PdfReader w p))) pdf_paths))))
     \<and> sorted (map snd (outline wr))
     \<and> 0 < cover_pages \<and> cover_pages < cover_pages + toc_pages
     \<and> (sorted_wrt (<) (map snd (outline wr))
          \<longleftrightarrow> (\<forall>p\<in>set (butlast pdf_paths). 0 < length (projr (PdfReader w p))))"
proof -
  let ?cp = "length (snd (make_cover_pdf w (cover_path w)))"
  let ?tp = "length (make_toc_pdf (stringWidth w) (toc_entries w pdf_paths))"
  let ?ns = "map (\<lambda>p. length (projr (PdfReader w p))) pdf_paths"
  let ?names = "map (\<lambda>p. display_name (basename p)) pdf_paths"
  let ?wr = "projr (snd (assemble w pdf_paths))"
  have cat: "cataloged w pdf_paths = map (\<lambda>p. (basename p, projr (PdfReader w p))) pdf_paths"
    using assms(2) by (rule cataloged_all_readable)
  then have ne: "cataloged w pdf_paths \<noteq> []"
    using assms(1) by simp
  have counts: "page_counts (cataloged w pdf_paths) = ?ns"
    by (simp add: cat page_counts_def comp_def)
  have names: "map (\<lambda>r. display_name (fst r)) (cataloged w pdf_paths) = ?names"
    by (simp add: cat comp_def)
  note asm = assemble_readable [OF ne, unfolded counts names]
  have ol: "outline ?wr = (''Cover'', 0) # (''Table of Contents'', ?cp) # zip ?names (offsets (?cp + ?tp) ?ns)"
    by (simp add: asm)
  have idx: "map snd (outline ?wr) = 0 # ?cp # offsets (?cp + ?tp) ?ns"
    unfolding ol by (rule outline_indices) simp
  have cp: "0 < ?cp" by (simp add: length_cover)
  have tp: "0 < ?tp" by (rule length_toc_pos)
  have a: "assemble w pdf_paths = (fst (assemble w pdf_paths), Inr ?wr)"
    by (simp add: asm)
  have b: "merge_with_index w store output_path pdf_paths
             = (fst (assemble w pdf_paths), None, store(output_path \<mapsto> ?wr))"
    if "open_error w output_path = None"
    using that by (simp add: merge_with_index_eq asm)
  have c: "length (outline ?wr) = length pdf_paths + 2"
    by (simp add: ol)
  have d: "outline ?wr ! 0 = (''Cover'', 0)" "outline ?wr ! 1 = (''Table of Contents'', ?cp)"
    by (simp_all add: ol)
  have e: "outline ?wr ! (i + 2)
             = (display_name (basename (pdf_paths ! i)), ?cp + ?tp + sum_list (take i ?ns))"
    if "i < length pdf_paths" for i
    using that by (simp add: ol offsets_nth)
  have f: "sorted (map snd (outline ?wr))"
    unfolding idx by (rule indices_sorted)
  have g: "sorted_wrt (<) (map snd (outline ?wr))
             \<longleftrightarrow> (\<forall>p\<in>set (butlast pdf_paths). 0 < length (projr (PdfReader w p)))"
    unfolding idx indices_strict [OF cp tp] by (simp add: map_butlast [symmetric])
  have h: "?cp < ?cp + ?tp"
    using tp by simp
  show ?thesis
    apply (rule exI [of _ "fst (assemble w pdf_paths)"])
    apply (rule exI [of _ ?wr])
    apply (rule exI [of _ ?cp])
    apply (rule exI [of _ ?tp])
    using a b c d e f g cp h apply blast
    done
qed

theorem bookmarks_in_order_witness:
  "readable demo_world ''in/a.pdf'' \<and> readable demo_world ''in/b.pdf''
   \<and> readable demo_world ''in/c.pdf''
   \<and> (\<exists>out wr. assemble demo_world [''in/a.pdf'', ''in/b.pdf'', ''in/c.pdf''] = (out, Inr wr)
          \<and> length (outline wr) = 5
          \<and> outline wr ! 2 = (''a'', 2) \<and> outline wr ! 3 = (''b'', 3) \<and> outline wr ! 4 = (''c'', 5)
          \<and> sorted_wrt (<) (map snd (outline wr)))"
proof -
  let ?ps = "[''in/a.pdf'', ''in/b.pdf'', ''in/c.pdf'']"
  have ne: "?ps \<noteq> []" by simp
  have all: "\<forall>p\<in>set ?ps. readable demo_world p"
    by (simp add: demo_readable)
  from bookmarks_in_order [OF ne all, of "''out.pdf''" Map.empty]
  obtain out wr cp tp where
    a: "assemble demo_world ?ps = (out, Inr wr)"
    and cp: "cp = length (snd (make_cover_pdf demo_world (cover_path demo_world)))"
    and tp: "tp = length (make_toc_pdf (stringWidth demo_world) (toc_entries demo_world ?ps))"
    and len: "length (outline wr) = length ?ps + 2"
    and nth: "\<forall>i<length ?ps. outline wr ! (i + 2)
             = (display_name (basename (?ps ! i)),
                cp + tp + sum_list (take i (map (\<lambda>p. length (projr (PdfReader demo_world p))) ?ps)))"
    and strict: "sorted_wrt (<) (map snd (outline wr))
          \<longleftrightarrow> (\<forall>p\<in>set (butlast ?ps). 0 < length (projr (PdfReader demo_world p)))"
    by blast
  have cp1: "cp = 1" unfolding cp by (rule length_cover)
  have "length (toc_entries demo_world ?ps) \<le> 25"
    by (simp add: toc_entries_eq cataloged_eq opened_def page_counts_def)
  then have tp1: "tp = 1" unfolding tp by (rule toc_single_page)
  have counts: "length (projr (PdfReader demo_world ''in/a.pdf'')) = 1"
    "length (projr (PdfReader demo_world ''in/b.pdf'')) = 2"
    by (simp_all add: demo_world_def)
  have n0: "outline wr ! 2 = (''a'', 2)"
    using nth [rule_format, of 0]
    by (simp add: cp1 tp1 display_name_def basename_def eval_nat_numeral)
  have n1: "outline wr ! 3 = (''b'', 3)"
    using nth [rule_format, of 1]
    by (simp add: cp1 tp1 counts display_name_def basename_def eval_nat_numeral)
  have n2: "outline wr ! 4 = (''c'', 5)"
    using nth [rule_format, of 2]
    by (simp add: cp1 tp1 counts display_name_def basename_def eval_nat_numeral)
  have s: "sorted_wrt (<) (map snd (outline wr))"
    unfolding strict by (simp add: demo_world_def)
  have "length (outline wr) = 5" using len by simp
  with a n0 n1 n2 s demo_readable(1-3) show ?thesis by blast
qed

lemma blank_cataloged:
  "cataloged blank_world [''in/a.pdf'', ''in/b.pdf'']
     = [(''a.pdf'', []), (''b.pdf'', [Source ''b1'', Source ''b2''])]"
  by (simp add: cataloged_def blank_world_def demo_world_def basename_def)

text \<open>
  C2, as stated, has the indices strictly increasing. A readable PDF without pages is
  followed by a bookmark at the same index: with \<open>a.pdf\<close> empty the indices are
  0, 1, 2, 2.
\<close>

theorem bookmarks_repeat_index:
  "readable blank_world ''in/a.pdf'' \<and> readable blank_world ''in/b.pdf''
   \<and> map snd (outline (projr (snd (assemble blank_world [''in/a.pdf'', ''in/b.pdf'']))))
       = [0, 1, 2, 2]
   \<and> \<not> sorted_wrt (<)
         (map snd (outline (projr (snd (assemble blank_world [''in/a.pdf'', ''in/b.pdf''])))))"
proof -
  let ?ps = "[''in/a.pdf'', ''in/b.pdf'']"
  have r: "readable blank_world ''in/a.pdf''" "readable blank_world ''in/b.pdf''"
    by (simp_all add: readable_def blank_world_def demo_world_def)
  have ne: "cataloged blank_world ?ps \<noteq> []"
    by (simp add: blank_cataloged)
  have "length (toc_entries blank_world ?ps) \<le> 25"
    by (simp add: toc_entries_eq blank_cataloged page_counts_def)
  then have tp: "length (make_toc_pdf (stringWidth blank_world) (toc_entries blank_world ?ps)) = 1"
    by (rule toc_single_page)
  have idx: "map snd (outline (projr (snd (assemble blank_world ?ps)))) = [0, 1, 2, 2]"
    by (simp add: assemble_readable [OF ne] tp length_cover blank_cataloged page_counts_def)
  then have "\<not> sorted_wrt (<) (map snd (outline (projr (snd (assemble blank_world ?ps)))))"
    by simp
  with r idx show ?thesis by blast
qed

lemma join_in: "join ''in'' [''*.pdf''] = ''in/*.pdf''"
  by (simp add: suffix_def)

lemma skips_files_that_do_not_open:
  assumes "\<exists>p\<in>set pdf_paths. readable w p" and "\<forall>p\<in>set pdf_paths. \<not> unpaged w p"
  shows "cataloged w pdf_paths = cataloged w (filter (readable w) pdf_paths)
     \<and> toc_entries w pdf_paths = toc_entries w (filter (readable w) pdf_paths)
     \<and> (\<exists>wr. snd (assemble w pdf_paths) = Inr wr
              \<and> snd (assemble w (filter (readable w) pdf_paths)) = Inr wr)
     \<and> fst (assemble w pdf_paths)
         = skip_warnings w pdf_paths @ fst (assemble w (filter (readable w) pdf_paths))
     \<and> skip_warnings w (filter (readable w) pdf_paths) = []
     \<and> (\<forall>p\<in>set pdf_paths. \<not> readable w p \<longrightarrow>
           (\<exists>e. PdfReader w p = Inl e
              \<and> ''WARNING: Skipping '' @ quoted p @ '' ('' @ e @ '')'' \<in> set (fst (assemble w pdf_paths))))
     \<and> snd (merge_with_index w store output_path pdf_paths)
         = snd (merge_with_index w store output_path (filter (readable w) pdf_paths))"
proof -
  let ?good = "filter (readable w) pdf_paths"
  have no: "\<not> (\<exists>p\<in>set pdf_paths. unpaged w p)" "\<not> (\<exists>p\<in>set ?good. unpaged w p)"
    using assms(2) by auto
  have cat: "cataloged w pdf_paths = cataloged w ?good"
    by (simp only: cataloged_eq no if_False opened_filter)
  have ent: "toc_entries w pdf_paths = toc_entries w ?good"
    by (simp add: toc_entries_eq cat)
  have "?good \<noteq> []"
    using assms(1) by (simp add: filter_empty_conv)
  then have ne: "cataloged w ?good \<noteq> []"
    by (simp only: cataloged_eq no if_False) (simp add: opened_def)
  then have ne': "cataloged w pdf_paths \<noteq> []"
    by (simp add: cat)
  note a = assemble_readable [OF ne'] and a' = assemble_readable [OF ne]
  have quiet: "skip_warnings w ?good = []"
    by (rule skip_warnings_filter)
  have same: "snd (assemble w pdf_paths) = snd (assemble w ?good)"
    unfolding a a' by (simp add: cat ent)
  have r: "\<exists>wr. snd (assemble w pdf_paths) = Inr wr \<and> snd (assemble w ?good) = Inr wr"
    unfolding same a' by simp
  have out: "fst (assemble w pdf_paths) = skip_warnings w pdf_paths @ fst (assemble w ?good)"
    unfolding a a' by (simp add: quiet)
  have warn: "\<exists>e. PdfReader w p = Inl e
              \<and> ''WARNING: Skipping '' @ quoted p @ '' ('' @ e @ '')'' \<in> set (fst (assemble w pdf_paths))"
    if "p \<in> set pdf_paths" "\<not> readable w p" for p
  proof -
    from that assms(2) obtain e where e: "PdfReader w p = Inl e"
      by (cases "PdfReader w p") (auto simp: readable_def unpaged_def)
    from skip_warnings_mem [OF that(1) e] show ?thesis
      using e by (simp add: a)
  qed
  have m: "snd (merge_with_index w store output_path pdf_paths)
         = snd (merge_with_index w store output_path ?good)"
    by (simp add: merge_with_index_eq same split: sum.splits option.splits)
  from cat ent r out quiet warn m show ?thesis by blast
qed

lemma demo_sorted:
  "sort [''in/b.pdf'', ''in/a.pdf'', ''in/c.pdf'', ''in/bad.pdf'']
     = [''in/a.pdf'', ''in/b.pdf'', ''in/bad.pdf'', ''in/c.pdf'']"
  by code_simp

text \<open>
  C8. The claim: when some files do not open and at least one does, each failing file
  gets a warning and is left out, the run goes on, and the output is that of a run over the
  readable files. The code catches the exception of \<open>PdfReader(p)\<close> only: the encrypted
  \<open>c.pdf\<close> opens, reading its page list on line 203 raises outside the \<open>try\<close>, and the run
  over \<open>a.pdf\<close>, \<open>b.pdf\<close>, \<open>bad.pdf\<close> and \<open>c.pdf\<close> ends there: one warning, for
  \<open>bad.pdf\<close>, none for \<open>c.pdf\<close>, the traceback, exit status 1 and no output file, where
  the run over \<open>a.pdf\<close> and \<open>b.pdf\<close> alone writes one.
\<close>

theorem encrypted_file_aborts:
  "isl (PdfReader locked_world ''in/bad.pdf'')
   \<and> readable locked_world ''in/a.pdf'' \<and> readable locked_world ''in/b.pdf''
   \<and> unpaged locked_world ''in/c.pdf''
   \<and> merge_with_index locked_world Map.empty ''out.pdf''
        [''in/a.pdf'', ''in/b.pdf'', ''in/bad.pdf'', ''in/c.pdf'']
       = ([''WARNING: Skipping '' @ quoted ''in/bad.pdf'' @ '' (EOF marker not found)''],
          Some (Raised ''PyPDF2.errors.FileNotDecryptedError: File has not been decrypted''),
          Map.empty)
   \<and> fst (snd (merge_with_index locked_world Map.empty ''out.pdf'' [''in/a.pdf'', ''in/b.pdf'']))
       = None
   \<and> exit_code (main locked_world Map.empty [''main.py'', ''out.pdf'', ''in'']) = 1
   \<and> files (main locked_world Map.empty [''main.py'', ''out.pdf'', ''in'']) = Map.empty
   \<and> stderr (main locked_world Map.empty [''main.py'', ''out.pdf'', ''in''])
       = [''PyPDF2.errors.FileNotDecryptedError: File has not been decrypted'']"
proof -
  let ?all = "[''in/a.pdf'', ''in/b.pdf'', ''in/bad.pdf'', ''in/c.pdf'']"
  have files: "isl (PdfReader locked_world ''in/bad.pdf'')"
    "readable locked_world ''in/a.pdf''" "readable locked_world ''in/b.pdf''"
    "unpaged locked_world ''in/c.pdf''"
    by (simp_all add: readable_def unpaged_def locked_world_def demo_world_def)
  have cat: "catalog locked_world ?all ([], [], [], 0)
      = ([''WARNING: Skipping '' @ quoted ''in/bad.pdf'' @ '' (EOF marker not found)''],
         Inl (Raised ''PyPDF2.errors.FileNotDecryptedError: File has not been decrypted''))"
    by (simp add: locked_world_def demo_world_def)
  have m: "merge_with_index locked_world Map.empty ''out.pdf'' ?all
      = ([''WARNING: Skipping '' @ quoted ''in/bad.pdf'' @ '' (EOF marker not found)''],
         Some (Raised ''PyPDF2.errors.FileNotDecryptedError: File has not been decrypted''),
         Map.empty)"
    unfolding merge_with_index_def assemble_def cat by simp
  have "cataloged locked_world [''in/a.pdf'', ''in/b.pdf''] \<noteq> []"
    using cataloged_all_readable [of "[''in/a.pdf'', ''in/b.pdf'']" locked_world] files(2,3)
    by simp
  from assemble_readable [OF this]
  have good: "fst (snd (merge_with_index locked_world Map.empty ''out.pdf'' [''in/a.pdf'', ''in/b.pdf'']))
      = None"
    by (simp add: merge_with_index_eq locked_world_def demo_world_def)
  have g: "sort (glob locked_world (join ''in'' [''*.pdf''])) = ?all"
    unfolding join_in by (simp add: locked_world_def demo_world_def demo_sorted)
  have d: "isdir locked_world ''in''"
    by (simp add: locked_world_def demo_world_def)
  have run: "exit_code (main locked_world Map.empty [''main.py'', ''out.pdf'', ''in'']) = 1"
    "files (main locked_world Map.empty [''main.py'', ''out.pdf'', ''in'']) = Map.empty"
    "stderr (main locked_world Map.empty [''main.py'', ''out.pdf'', ''in''])
       = [''PyPDF2.errors.FileNotDecryptedError: File has not been decrypted'']"
    by (simp_all add: main_def Let_def g d m del: join.simps)
  from files m good run show ?thesis by blast
qed

section \<open>The command line\<close>

lemma sort_eq_Nil: "sort xs = [] \<longleftrightarrow> xs = []"
  using length_sort [of "\<lambda>x. x" xs] by (metis length_0_conv)

lemma cataloged_none:
  "\<forall>p\<in>set ps. isl (PdfReader w p) \<Longrightarrow> cataloged w ps = []"
  by (auto simp: cataloged_eq opened_def readable_def)

lemma skip_warnings_hd:
  "l \<in> set (skip_warnings w ps) \<Longrightarrow> hd l = CHR ''W''"
  by (auto simp: skip_warnings_def split: sum.splits)

lemma merge_none_readable:
  assumes "\<forall>p\<in>set ps. isl (PdfReader w p)"
  shows "merge_with_index w store output_path ps
           = (skip_warnings w ps, Some (RuntimeError ''No readable PDFs to merge.''), store)"
proof -
  have "\<forall>p\<in>set ps. \<not> unpaged w p"
    using assms by (simp add: unpaged_def)
  from assemble_eq [OF this] cataloged_none [OF assms] show ?thesis
    by (simp add: merge_with_index_eq)
qed

text \<open>
  C9. A run with a wrong number of arguments, with an input directory that is not a
  directory, with no file matching \<open>*.pdf\<close> in it, or with files found of which none
  opens, exits with status 1 and leaves the store of written files as it was. With no file
  found the run prints the one line \<open>No PDFs found in \<close> followed by the directory, and
  nothing on the error stream; with files found and none readable the error stream carries
  \<open>RuntimeError: No readable PDFs to merge.\<close> and the line of the other case is not
  printed.
\<close>

theorem main_failures:
  assumes "length argv \<noteq> 3
           \<or> \<not> isdir w (argv ! 2)
           \<or> glob w (join (argv ! 2) [''*.pdf'']) = []
           \<or> (\<forall>p\<in>set (glob w (join (argv ! 2) [''*.pdf''])). isl (PdfReader w p))"
  shows "exit_code (main w store argv) = 1
     \<and> files (main w store argv) = store
     \<and> (length argv = 3 \<longrightarrow> isdir w (argv ! 2) \<longrightarrow> glob w (join (argv ! 2) [''*.pdf'']) = [] \<longrightarrow>
          stdout (main w store argv) = [''No PDFs found in '' @ argv ! 2]
          \<and> stderr (main w store argv) = [])
     \<and> (length argv = 3 \<longrightarrow> isdir w (argv ! 2) \<longrightarrow> glob w (join (argv ! 2) [''*.pdf'']) \<noteq> [] \<longrightarrow>
          (\<forall>p\<in>set (glob w (join (argv ! 2) [''*.pdf''])). isl (PdfReader w p)) \<longrightarrow>
          stderr (main w store argv) = [''RuntimeError: No readable PDFs to merge.'']
          \<and> ''No PDFs found in '' @ argv ! 2 \<notin> set (stdout (main w store argv)))"
proof (cases "length argv \<noteq> 3")
  case True
  then show ?thesis by (simp add: main_def)
next
  case three: False
  show ?thesis
  proof (cases "isdir w (argv ! 2)")
    case False
    then show ?thesis using three by (simp add: main_def Let_def del: join.simps)
  next
    case dir: True
    let ?found = "glob w (join (argv ! 2) [''*.pdf''])"
    show ?thesis
    proof (cases "?found = []")
      case True
      then show ?thesis using three dir by (simp add: main_def Let_def del: join.simps)
    next
      case some: False
      with assms three dir have none: "\<forall>p\<in>set ?found. isl (PdfReader w p)"
        by blast
      then have none': "\<forall>p\<in>set (sort ?found). isl (PdfReader w p)"
        by simp
      have srt: "sort ?found \<noteq> []"
        using some by (simp add: sort_eq_Nil)
      note m = merge_none_readable [OF none', of store "argv ! Suc 0"]
      have out: "''No PDFs found in '' @ argv ! 2 \<notin> set (skip_warnings w (sort ?found))"
        using skip_warnings_hd [of "''No PDFs found in '' @ argv ! 2" w "sort ?found"] by auto
      show ?thesis
        using three dir some srt out none by (simp add: main_def Let_def m del: join.simps)
    qed
  qed
qed

theorem main_failures_witness:
  "exit_code (main (demo_world\<lparr>PdfReader := \<lambda>p. Inl ''EOF marker not found''\<rparr>) Map.empty
        [''main.py'', ''out.pdf'', ''in'']) = 1
   \<and> files (main (demo_world\<lparr>PdfReader := \<lambda>p. Inl ''EOF marker not found''\<rparr>) Map.empty
        [''main.py'', ''out.pdf'', ''in'']) = Map.empty
   \<and> stderr (main (demo_world\<lparr>PdfReader := \<lambda>p. Inl ''EOF marker not found''\<rparr>) Map.empty
        [''main.py'', ''out.pdf'', ''in'']) = [''RuntimeError: No readable PDFs to merge.'']
   \<and> glob (demo_world\<lparr>glob := \<lambda>p. []\<rparr>) (join ([''main.py'', ''out.pdf'', ''in''] ! 2) [''*.pdf'']) = []
   \<and> exit_code (main (demo_world\<lparr>glob := \<lambda>p. []\<rparr>) Map.empty [''main.py'', ''out.pdf'', ''in'']) = 1
   \<and> stdout (main (demo_world\<lparr>glob := \<lambda>p. []\<rparr>) Map.empty [''main.py'', ''out.pdf'', ''in''])
       = [''No PDFs found in in'']
   \<and> stderr (main (demo_world\<lparr>glob := \<lambda>p. []\<rparr>) Map.empty [''main.py'', ''out.pdf'', ''in'']) = []"
proof -
  let ?w1 = "demo_world\<lparr>PdfReader := \<lambda>p. Inl ''EOF marker not found''\<rparr>"
  let ?w2 = "demo_world\<lparr>glob := \<lambda>p. []\<rparr>"
  let ?argv = "[''main.py'', ''out.pdf'', ''in'']"
  have arg: "?argv ! 2 = ''in''" "length ?argv = 3"
    by simp_all
  have none: "\<forall>p\<in>set (glob ?w1 (join (?argv ! 2) [''*.pdf''])). isl (PdfReader ?w1 p)"
    by simp
  have found: "glob ?w1 (join (?argv ! 2) [''*.pdf'']) \<noteq> []"
    unfolding arg join_in by (simp add: demo_world_def)
  have dir1: "isdir ?w1 (?argv ! 2)" and dir2: "isdir ?w2 (?argv ! 2)"
    unfolding arg by (simp_all add: demo_world_def)
  have empty: "glob ?w2 (join (?argv ! 2) [''*.pdf'']) = []"
    by simp
  have h1: "length ?argv \<noteq> 3 \<or> \<not> isdir ?w1 (?argv ! 2)
            \<or> glob ?w1 (join (?argv ! 2) [''*.pdf'']) = []
            \<or> (\<forall>p\<in>set (glob ?w1 (join (?argv ! 2) [''*.pdf''])). isl (PdfReader ?w1 p))"
    using none by blast
  have h2: "length ?argv \<noteq> 3 \<or> \<not> isdir ?w2 (?argv ! 2)
            \<or> glob ?w2 (join (?argv ! 2) [''*.pdf'']) = []
            \<or> (\<forall>p\<in>set (glob ?w2 (join (?argv ! 2) [''*.pdf''])). isl (PdfReader ?w2 p))"
    using empty by blast
  note t1 = main_failures [OF h1, of Map.empty]
  note t2 = main_failures [OF h2, of Map.empty]
  have a: "exit_code (main ?w1 Map.empty ?argv) = 1" "files (main ?w1 Map.empty ?argv) = Map.empty"
    using t1 by blast+
  have b: "stderr (main ?w1 Map.empty ?argv) = [''RuntimeError: No readable PDFs to merge.'']"
    using t1 arg(2) dir1 found none by blast
  have c: "exit_code (main ?w2 Map.empty ?argv) = 1"
    using t2 by blast
  have "stdout (main ?w2 Map.empty ?argv) = [''No PDFs found in '' @ ?argv ! 2]
          \<and> stderr (main ?w2 Map.empty ?argv) = []"
    using t2 arg(2) dir2 empty by blast
  then have d: "stdout (main ?w2 Map.empty ?argv) = [''No PDFs found in in'']"
    "stderr (main ?w2 Map.empty ?argv) = []"
    by simp_all
  from a b empty c d show ?thesis by blast
qed

lemma catalog_cong:
  "PdfReader w' = PdfReader w \<Longrightarrow> pages_error w' = pages_error w \<Longrightarrow>
     catalog w' ps st = catalog w ps st"
proof (induction ps arbitrary: st)
  case Nil
  then show ?case by (cases st) simp
next
  case (Cons p ps)
  obtain out rs es cur where st: "st = (out, rs, es, cur)"
    by (cases st)
  show ?case
    unfolding st using Cons by (simp split: sum.splits option.splits)
qed

lemma make_cover_pdf_cong:
  assumes "exists w' p = exists w p" "Image_open w' p = Image_open w p"
    "image_draw_error w' p = image_draw_error w p"
  shows "make_cover_pdf w' p = make_cover_pdf w p"
proof -
  have "draw_cover_image w' p c = draw_cover_image w p c" for c
    using assms(2,3) by (simp add: draw_cover_image_def Let_def split: sum.splits prod.splits)
  then show ?thesis
    using assms(1) by (simp add: make_cover_pdf_def Let_def cong: if_cong)
qed

lemma suffix_cover_path: "suffix ''static/cover.png'' (cover_path w)"
proof -
  have ns: "\<not> suffix ''/'' (d @ ''static'')" for d :: string
    using snoc_suffix_snoc [of "[]" "CHR ''/''" "d @ ''stati''" "CHR ''c''"] by simp
  have np: "\<not> suffix ''/'' (d @ ''/static'')" for d :: string
    using snoc_suffix_snoc [of "[]" "CHR ''/''" "d @ ''/stati''" "CHR ''c''"] by simp
  have ns': "\<not> suffix ''/'' ''static''"
    using ns [of "[]"] by simp
  show ?thesis
    by (auto simp: cover_path_def ns np ns' suffix_def)
qed

text \<open>
  C10. The cover image is looked up at \<open>static/cover.png\<close> under the directory of the
  program's own path, whatever the arguments: two environments that differ only in the
  images found at other paths give the same run of \<open>main\<close> for every argument list, and
  the same result of \<open>merge_with_index\<close> for every output path and list of inputs.
\<close>

theorem cover_image_path_fixed:
  assumes "script_file w' = script_file w" and "isdir w' = isdir w" and "glob w' = glob w"
    and "PdfReader w' = PdfReader w" and "pages_error w' = pages_error w"
    and "stringWidth w' = stringWidth w"
    and "open_error w' = open_error w"
    and "exists w' (cover_path w) = exists w (cover_path w)"
    and "Image_open w' (cover_path w) = Image_open w (cover_path w)"
    and "image_draw_error w' (cover_path w) = image_draw_error w (cover_path w)"
  shows "main w' store argv = main w store argv
     \<and> merge_with_index w' store output_path pdf_paths = merge_with_index w store output_path pdf_paths
     \<and> cover_path w' = cover_path w
     \<and> cover_path w = join (dirname (script_file w)) [''static'', ''cover.png'']
     \<and> suffix ''static/cover.png'' (cover_path w)"
proof -
  have cp: "cover_path w' = cover_path w"
    using assms(1) by (simp add: cover_path_def)
  have cov: "make_cover_pdf w' (cover_path w) = make_cover_pdf w (cover_path w)"
    using assms(8-10) by (rule make_cover_pdf_cong)
  have cat: "catalog w' ps st = catalog w ps st" for ps st
    using assms(4,5) by (rule catalog_cong)
  have asm: "assemble w' ps = assemble w ps" for ps
    by (simp add: assemble_def cat cp cov assms(6) Let_def split: prod.splits sum.splits)
  have m: "merge_with_index w' store out ps = merge_with_index w store out ps" for out ps
    by (simp add: merge_with_index_def asm assms(7) split: prod.splits sum.splits)
  have "main w' store argv = main w store argv"
    by (simp add: main_def m assms(2,3) Let_def split: prod.splits option.splits)
  with m cp suffix_cover_path show ?thesis
    by (simp add: cover_path_def)
qed

theorem cover_image_path_fixed_witness:
  "cover_path demo_world = ''/app/static/cover.png''
   \<and> exists (demo_world\<lparr>exists := \<lambda>p. p = ''in/cover.png''\<rparr>) ''in/cover.png''
   \<and> main (demo_world\<lparr>exists := \<lambda>p. p = ''in/cover.png''\<rparr>) Map.empty [''main.py'', ''out.pdf'', ''in'']
       = main demo_world Map.empty [''main.py'', ''out.pdf'', ''in'']"
proof -
  let ?w = "demo_world\<lparr>exists := \<lambda>p. p = ''in/cover.png''\<rparr>"
  have cp: "cover_path demo_world = ''/app/static/cover.png''"
    by (simp add: cover_path_def demo_world_def dirname_def suffix_def)
  have e: "exists ?w (cover_path demo_world) = exists demo_world (cover_path demo_world)"
    unfolding cp by (simp add: demo_world_def)
  have "main ?w Map.empty [''main.py'', ''out.pdf'', ''in'']
          = main demo_world Map.empty [''main.py'', ''out.pdf'', ''in'']"
    using cover_image_path_fixed [of ?w demo_world Map.empty "[''main.py'', ''out.pdf'', ''in'']", OF _ _ _ _ _ _ _ e]
    by simp
  with cp show ?thesis by simp
qed

end
